theory Spec2Isabelle
  imports Complex_Main "HOL-Library.Sublist"
begin

section \<open>Order and trade records (lob/types.py)\<close>

text \<open>
  Python floats (prices, timestamps, cash) are idealised as exact rationals; Python's
  unbounded integers (quantities, inventory) are \<open>int\<close>. Exceptions are values of
  \<open>error\<close>, returned on the left of a sum.
\<close>

datatype error = KeyError | ValueError | ZeroDivisionError

datatype Side = BID | ASK

fun opposite :: "Side \<Rightarrow> Side" where
  "opposite BID = ASK"
| "opposite ASK = BID"

datatype OrderType = LIMIT | MARKET

record Order =
  order_id :: string
  timestamp :: rat
  side :: Side
  order_type :: OrderType
  qty :: int
  price :: "rat option"
  owner :: string

text \<open>\<open>Order.__post_init__\<close>: the two construction-time checks.\<close>

definition Order_post_init :: "Order \<Rightarrow> error + Order" where
  "Order_post_init ord =
     (if qty ord \<le> 0 then Inl ValueError
      else if order_type ord = LIMIT \<and> price ord = None then Inl ValueError
      else Inr ord)"

record Trade =
  trade_timestamp :: rat
  trade_price :: rat
  trade_qty :: int
  taker_order_id :: string
  maker_order_id :: string
  taker_owner :: string
  maker_owner :: string
  taker_side :: Side

section \<open>The limit order book (lob/book.py)\<close>

text \<open>
  The two dictionaries from price to queue are maps; a deque is a list with its head at
  the left. The third component of an index entry is, in the source, a reference to the
  resting order object; the operations modelled here read only its immutable owner, so
  the model stores the owner.
\<close>

record LimitOrderBook =
  bids :: "rat \<rightharpoonup> Order list"
  asks :: "rat \<rightharpoonup> Order list"
  bid_prices :: "rat list"
  ask_prices :: "rat list"
  order_index :: "string \<rightharpoonup> (Side \<times> rat \<times> string)"

definition empty_book :: LimitOrderBook where
  "empty_book = \<lparr>bids = Map.empty, asks = Map.empty, bid_prices = [], ask_prices = [],
     order_index = Map.empty\<rparr>"

definition best_bid :: "LimitOrderBook \<Rightarrow> rat option" where
  "best_bid b = (if bid_prices b = [] then None else Some (last (bid_prices b)))"

definition best_ask :: "LimitOrderBook \<Rightarrow> rat option" where
  "best_ask b = (if ask_prices b = [] then None else Some (hd (ask_prices b)))"

definition mid_price :: "LimitOrderBook \<Rightarrow> rat option" where
  "mid_price b =
     (case best_bid b of None \<Rightarrow> None
      | Some bb \<Rightarrow> (case best_ask b of None \<Rightarrow> None | Some ba \<Rightarrow> Some ((bb + ba) / 2)))"

definition spread :: "LimitOrderBook \<Rightarrow> rat option" where
  "spread b =
     (case best_bid b of None \<Rightarrow> None
      | Some bb \<Rightarrow> (case best_ask b of None \<Rightarrow> None | Some ba \<Rightarrow> Some (ba - bb)))"

text \<open>
  \<open>open_orders\<close>: the ids of the index, optionally filtered by owner. The source returns
  them as a list in dictionary order; the model keeps the set.
\<close>

definition open_orders :: "LimitOrderBook \<Rightarrow> string option \<Rightarrow> string set" where
  "open_orders b w =
     (case w of None \<Rightarrow> dom (order_index b)
      | Some x \<Rightarrow> {i. \<exists>s p. order_index b i = Some (s, p, x)})"

text \<open>\<open>_book_for_side\<close>, split into its two components, and the write-back of each.\<close>

definition book_for_side :: "Side \<Rightarrow> LimitOrderBook \<Rightarrow> (rat \<rightharpoonup> Order list)" where
  "book_for_side s b = (if s = BID then bids b else asks b)"

definition levels_for_side :: "Side \<Rightarrow> LimitOrderBook \<Rightarrow> rat list" where
  "levels_for_side s b = (if s = BID then bid_prices b else ask_prices b)"

definition set_book_for_side ::
  "Side \<Rightarrow> (rat \<rightharpoonup> Order list) \<Rightarrow> LimitOrderBook \<Rightarrow> LimitOrderBook" where
  "set_book_for_side s m b = (if s = BID then b\<lparr>bids := m\<rparr> else b\<lparr>asks := m\<rparr>)"

definition set_levels_for_side :: "Side \<Rightarrow> rat list \<Rightarrow> LimitOrderBook \<Rightarrow> LimitOrderBook" where
  "set_levels_for_side s ps b = (if s = BID then b\<lparr>bid_prices := ps\<rparr> else b\<lparr>ask_prices := ps\<rparr>)"

text \<open>
  \<open>bisect_left\<close> and \<open>insort\<close> are Python's standard library. They are modelled by
  their documented result on a sorted list: the insertion point before any entry equal
  to \<open>x\<close>, and insertion after the entries not above \<open>x\<close>.
\<close>

definition bisect_left :: "rat list \<Rightarrow> rat \<Rightarrow> nat" where
  "bisect_left xs x = length (takeWhile (\<lambda>y. y < x) xs)"

definition insort_py :: "rat list \<Rightarrow> rat \<Rightarrow> rat list" where
  "insort_py xs x = takeWhile (\<lambda>y. y \<le> x) xs @ x # dropWhile (\<lambda>y. y \<le> x) xs"

definition remove_price_level :: "Side \<Rightarrow> rat \<Rightarrow> LimitOrderBook \<Rightarrow> LimitOrderBook" where
  "remove_price_level s p b =
     (let b1 = set_book_for_side s ((book_for_side s b)(p := None)) b;
          levels = levels_for_side s b1;
          idx = bisect_left levels p
      in if idx < length levels \<and> levels ! idx = p
         then set_levels_for_side s (take idx levels @ drop (Suc idx) levels) b1
         else b1)"

definition add_resting :: "LimitOrderBook \<Rightarrow> Order \<Rightarrow> error + LimitOrderBook" where
  "add_resting b ord =
     (case price ord of None \<Rightarrow> Inl ValueError
      | Some p \<Rightarrow>
          let s = side ord;
              b1 = (if book_for_side s b p = None
                    then set_levels_for_side s (insort_py (levels_for_side s b) p)
                           (set_book_for_side s ((book_for_side s b)(p \<mapsto> [])) b)
                    else b);
              b2 = set_book_for_side s
                     ((book_for_side s b1)(p \<mapsto> the (book_for_side s b1 p) @ [ord])) b1
          in Inr (b2\<lparr>order_index := (order_index b2)(order_id ord \<mapsto> (s, p, owner ord))\<rparr>))"

definition is_marketable :: "LimitOrderBook \<Rightarrow> Order \<Rightarrow> bool" where
  "is_marketable b ord =
     (if order_type ord = MARKET then True
      else if side ord = BID \<and> best_ask b \<noteq> None \<and> price ord \<noteq> None
        then the (price ord) \<ge> the (best_ask b)
      else if side ord = ASK \<and> best_bid b \<noteq> None \<and> price ord \<noteq> None
        then the (price ord) \<le> the (best_bid b)
      else False)"

text \<open>
  The inner loop of \<open>_match\<close>: \<open>while queue and taker.qty > 0\<close>, on the queue of the best
  opposing price. It returns the queue, the index and the taker as the loop leaves them,
  and the trades it appended.
\<close>

definition make_trade :: "rat \<Rightarrow> int \<Rightarrow> Order \<Rightarrow> Order \<Rightarrow> Trade" where
  "make_trade best_price fill_qty taker maker =
     \<lparr>trade_timestamp = timestamp taker, trade_price = best_price, trade_qty = fill_qty,
      taker_order_id = order_id taker, maker_order_id = order_id maker,
      taker_owner = owner taker, maker_owner = owner maker, taker_side = side taker\<rparr>"

function match_queue ::
  "rat \<Rightarrow> Order list \<Rightarrow> (string \<rightharpoonup> (Side \<times> rat \<times> string)) \<Rightarrow> Order
     \<Rightarrow> Order list \<times> (string \<rightharpoonup> (Side \<times> rat \<times> string)) \<times> Order \<times> Trade list" where
  "match_queue best_price queue idx taker =
     (case queue of [] \<Rightarrow> (queue, idx, taker, [])
      | maker # rest \<Rightarrow>
          if qty taker > 0 then
            (let fill_qty = min (qty taker) (qty maker);
                 maker' = maker\<lparr>qty := qty maker - fill_qty\<rparr>;
                 taker' = taker\<lparr>qty := qty taker - fill_qty\<rparr>;
                 tr = make_trade best_price fill_qty taker maker;
                 (queue', idx', taker'', trs) =
                   (if qty maker' = 0
                    then match_queue best_price rest (idx(order_id maker := None)) taker'
                    else match_queue best_price (maker' # rest) idx taker')
             in (queue', idx', taker'', tr # trs))
          else (queue, idx, taker, []))"
  by pat_completeness auto
termination
  by (relation "measure (\<lambda>(bp, queue, idx, taker).
        2 * length queue + (if qty taker > 0 then 1 else 0))") auto


declare match_queue.simps [simp del]

text \<open>
  One pass through the body of the outer loop of \<open>_match\<close> (entered with
  \<open>taker.qty > 0\<close>): it breaks, raises (the dictionary lookup of the best price), or
  hands the updated book and taker and the trades of this level to the next pass.
\<close>

datatype match_step = Break | Raise error | Next LimitOrderBook Order "Trade list"

definition best_opposing :: "LimitOrderBook \<Rightarrow> Order \<Rightarrow> rat option" where
  "best_opposing b taker = (if side taker = BID then best_ask b else best_bid b)"

definition match_body :: "LimitOrderBook \<Rightarrow> Order \<Rightarrow> match_step" where
  "match_body b taker =
     (case best_opposing b taker of None \<Rightarrow> Break
      | Some best_price \<Rightarrow>
          if order_type taker = LIMIT \<and> price taker \<noteq> None \<and>
             ((side taker = BID \<and> the (price taker) < best_price) \<or>
              (side taker = ASK \<and> the (price taker) > best_price))
          then Break
          else
            (let maker_side = opposite (side taker) in
             case book_for_side maker_side b best_price of None \<Rightarrow> Raise KeyError
             | Some queue \<Rightarrow>
                 (let (queue', idx', taker', trs) =
                        match_queue best_price queue (order_index b) taker;
                      b1 = (set_book_for_side maker_side
                              ((book_for_side maker_side b)(best_price \<mapsto> queue')) b)
                             \<lparr>order_index := idx'\<rparr>;
                      b2 = (if queue' = [] then remove_price_level maker_side best_price b1
                            else b1)
                  in Next b2 taker' trs)))"

definition match_measure :: "LimitOrderBook \<Rightarrow> Order \<Rightarrow> nat" where
  "match_measure b taker =
     (if qty taker > 0
      then 1 + 2 * length (levels_for_side (opposite (side taker)) b) +
           (case best_opposing b taker of None \<Rightarrow> 0
            | Some bp \<Rightarrow>
                if book_for_side (opposite (side taker)) b bp = None then 0 else 1)
      else 0)"

lemma match_queue_Nil [simp]: "match_queue bp [] idx taker = ([], idx, taker, [])"
  by (simp add: match_queue.simps)

lemma match_queue_Cons:
  "match_queue bp (maker # rest) idx taker =
     (if qty taker > 0 then
        (if qty maker \<le> qty taker
         then (let (q, i, t, trs) =
                     match_queue bp rest (idx(order_id maker := None))
                       (taker\<lparr>qty := qty taker - qty maker\<rparr>)
               in (q, i, t, make_trade bp (qty maker) taker maker # trs))
         else (maker\<lparr>qty := qty maker - qty taker\<rparr> # rest, idx, taker\<lparr>qty := 0\<rparr>,
               [make_trade bp (qty taker) taker maker]))
      else (maker # rest, idx, taker, []))"
proof (cases "qty taker > 0")
  case False
  then show ?thesis by (simp add: match_queue.simps [of bp "maker # rest"])
next
  case pos: True
  show ?thesis
  proof (cases "qty maker \<le> qty taker")
    case True
    with pos show ?thesis
      by (simp add: match_queue.simps [of bp "maker # rest"] min_def Let_def)
  next
    case False
    then have stop: "match_queue bp (maker\<lparr>qty := qty maker - qty taker\<rparr> # rest) idx
        (taker\<lparr>qty := 0\<rparr>) = (maker\<lparr>qty := qty maker - qty taker\<rparr> # rest, idx, taker\<lparr>qty := 0\<rparr>, [])"
      by (simp add: match_queue.simps [of bp "_ # rest"])
    from pos False show ?thesis
      by (simp add: match_queue.simps [of bp "maker # rest" idx taker] min_def Let_def stop)
  qed
qed


lemma match_queue_side:
  "match_queue bp queue idx taker = (q, i, t, trs) \<Longrightarrow> side t = side taker"
proof (induction queue arbitrary: idx taker q i t trs)
  case Nil
  then show ?case by simp
next
  case (Cons maker rest)
  then show ?case
    by (auto simp: match_queue_Cons split: if_splits prod.splits)
qed

lemma match_queue_left:
  "match_queue bp queue idx taker = (q, i, t, trs) \<Longrightarrow> q \<noteq> [] \<Longrightarrow> qty t \<le> 0"
proof (induction queue arbitrary: idx taker q i t trs)
  case Nil
  then show ?case by simp
next
  case (Cons maker rest)
  then show ?case
    by (auto simp: match_queue_Cons split: if_splits prod.splits)
qed

lemma levels_remove_price_level:
  "levels_for_side s (remove_price_level s p b) = levels_for_side s b \<or>
   length (levels_for_side s (remove_price_level s p b)) < length (levels_for_side s b)"
  by (auto simp: remove_price_level_def Let_def levels_for_side_def set_levels_for_side_def
      set_book_for_side_def)

lemma book_remove_price_level:
  "book_for_side s (remove_price_level s p b) = (book_for_side s b)(p := None)"
  by (auto simp: remove_price_level_def Let_def book_for_side_def set_levels_for_side_def
      set_book_for_side_def)

lemma best_opposing_levels:
  "side t = side taker \<Longrightarrow>
   levels_for_side (opposite (side taker)) b' = levels_for_side (opposite (side taker)) b \<Longrightarrow>
   best_opposing b' t = best_opposing b taker"
  by (cases "side taker") (auto simp: best_opposing_def best_bid_def best_ask_def levels_for_side_def)

lemma match_body_decreases:
  assumes "match_body b taker = Next b' taker' trs" and "qty taker > 0"
  shows "match_measure b' taker' < match_measure b taker"
proof -
  from assms(1) obtain bp queue queue' idx' where
    bo: "best_opposing b taker = Some bp"
    and bk: "book_for_side (opposite (side taker)) b bp = Some queue"
    and mq: "match_queue bp queue (order_index b) taker = (queue', idx', taker', trs)"
    and b': "b' = (let b1 = (set_book_for_side (opposite (side taker))
                     ((book_for_side (opposite (side taker)) b)(bp \<mapsto> queue')) b)
                     \<lparr>order_index := idx'\<rparr>
                   in if queue' = [] then remove_price_level (opposite (side taker)) bp b1
                      else b1)"
    by (auto simp: match_body_def Let_def split: option.splits if_splits prod.splits)
  have sd: "side taker' = side taker" using mq by (rule match_queue_side)
  have old: "match_measure b taker =
      2 + 2 * length (levels_for_side (opposite (side taker)) b)"
    using assms(2) bo bk by (simp add: match_measure_def)
  show ?thesis
  proof (cases "queue' = []")
    case False
    then have "qty taker' \<le> 0" using mq match_queue_left by blast
    then show ?thesis using old by (simp add: match_measure_def)
  next
    case True
    define b1 where "b1 = (set_book_for_side (opposite (side taker))
        ((book_for_side (opposite (side taker)) b)(bp \<mapsto> queue')) b)\<lparr>order_index := idx'\<rparr>"
    have b'_eq: "b' = remove_price_level (opposite (side taker)) bp b1"
      using b' True by (simp add: b1_def)
    have lv1: "levels_for_side (opposite (side taker)) b1 =
        levels_for_side (opposite (side taker)) b"
      by (simp add: b1_def levels_for_side_def set_book_for_side_def)
    consider (same) "levels_for_side (opposite (side taker)) b' =
          levels_for_side (opposite (side taker)) b"
      | (less) "length (levels_for_side (opposite (side taker)) b') <
          length (levels_for_side (opposite (side taker)) b)"
      using levels_remove_price_level [of "opposite (side taker)" bp b1] lv1 b'_eq by auto
    then show ?thesis
    proof cases
      case same
      then have "best_opposing b' taker' = Some bp"
        using best_opposing_levels [OF sd same] bo by simp
      moreover have "book_for_side (opposite (side taker)) b' bp = None"
        by (simp add: b'_eq book_remove_price_level)
      ultimately show ?thesis using old same sd by (simp add: match_measure_def)
    next
      case less
      then show ?thesis using old sd
        by (auto simp: match_measure_def split: option.splits)
    qed
  qed
qed

text \<open>\<open>_match\<close>: the outer loop, returning the book, the taker and the trades.\<close>

function match :: "LimitOrderBook \<Rightarrow> Order \<Rightarrow> error + (LimitOrderBook \<times> Order \<times> Trade list)" where
  "match b taker =
     (if qty taker > 0 then
        (case match_body b taker of
           Break \<Rightarrow> Inr (b, taker, [])
         | Raise e \<Rightarrow> Inl e
         | Next b' taker' trs \<Rightarrow>
             (case match b' taker' of
                Inl e \<Rightarrow> Inl e
              | Inr (b'', taker'', trs') \<Rightarrow> Inr (b'', taker'', trs @ trs')))
      else Inr (b, taker, []))"
  by pat_completeness auto
termination
  by (relation "measure (\<lambda>(b, taker). match_measure b taker)")
    (auto simp: match_body_decreases)

declare match.simps [simp del]

definition add_order ::
  "LimitOrderBook \<Rightarrow> Order \<Rightarrow> error + (LimitOrderBook \<times> Order \<times> Trade list)" where
  "add_order b ord =
     (case (if order_type ord = MARKET \<or> is_marketable b ord then match b ord
            else Inr (b, ord, [])) of
        Inl e \<Rightarrow> Inl e
      | Inr (b1, ord1, trades) \<Rightarrow>
          if order_type ord1 = LIMIT \<and> qty ord1 > 0
          then (case add_resting b1 ord1 of
                  Inl e \<Rightarrow> Inl e
                | Inr b2 \<Rightarrow> Inr (b2, ord1, trades))
          else Inr (b1, ord1, trades))"

text \<open>\<open>del queue[idx]\<close> at the first element whose id is the one sought.\<close>

fun del_first :: "string \<Rightarrow> Order list \<Rightarrow> Order list" where
  "del_first i [] = []"
| "del_first i (x # xs) = (if order_id x = i then xs else x # del_first i xs)"

definition cancel :: "LimitOrderBook \<Rightarrow> string \<Rightarrow> bool \<times> LimitOrderBook" where
  "cancel b oid =
     (case order_index b oid of
        None \<Rightarrow> (False, b)
      | Some (s, p, w) \<Rightarrow>
          (case book_for_side s b p of
             None \<Rightarrow> (False, b\<lparr>order_index := (order_index b)(oid := None)\<rparr>)
           | Some queue \<Rightarrow>
               if \<not> (\<exists>resting \<in> set queue. order_id resting = oid)
               then (False, b\<lparr>order_index := (order_index b)(oid := None)\<rparr>)
               else
                 (let queue' = del_first oid queue;
                      b1 = (set_book_for_side s ((book_for_side s b)(p \<mapsto> queue')) b)
                             \<lparr>order_index := (order_index b)(oid := None)\<rparr>
                  in (True, if queue' = [] then remove_price_level s p b1 else b1))))"

section \<open>Invariants of the price levels\<close>

text \<open>
  Each side's price list is sorted, without duplicates, and lists exactly the keys of the
  side's dictionary; every bid level is below every ask level.
\<close>

definition side_wf :: "Side \<Rightarrow> LimitOrderBook \<Rightarrow> bool" where
  "side_wf s b \<longleftrightarrow>
     sorted (levels_for_side s b) \<and> distinct (levels_for_side s b) \<and>
     set (levels_for_side s b) = dom (book_for_side s b)"

definition uncrossed :: "LimitOrderBook \<Rightarrow> bool" where
  "uncrossed b \<longleftrightarrow> (\<forall>x \<in> set (bid_prices b). \<forall>y \<in> set (ask_prices b). x < y)"

definition levels_wf :: "LimitOrderBook \<Rightarrow> bool" where
  "levels_wf b \<longleftrightarrow> side_wf BID b \<and> side_wf ASK b \<and> uncrossed b"

lemma bisect_left_sorted:
  assumes "sorted xs" "distinct xs" "p \<in> set xs"
  shows "bisect_left xs p < length xs \<and> xs ! bisect_left xs p = p \<and>
         take (bisect_left xs p) xs @ drop (Suc (bisect_left xs p)) xs = remove1 p xs"
  using assms
proof (induction xs)
  case Nil
  then show ?case by simp
next
  case (Cons x xs)
  show ?case
  proof (cases "x = p")
    case True
    then show ?thesis by (simp add: bisect_left_def)
  next
    case False
    with Cons.prems have "x < p" by auto
    with Cons False show ?thesis by (auto simp: bisect_left_def)
  qed
qed

lemma insort_py_set [simp]: "set (insort_py xs x) = insert x (set xs)"
proof -
  have "set xs = set (takeWhile (\<lambda>y. y \<le> x) xs) \<union> set (dropWhile (\<lambda>y. y \<le> x) xs)"
    by (metis set_append takeWhile_dropWhile_id)
  then show ?thesis unfolding insort_py_def by auto
qed

lemma dropWhile_sorted_gt:
  "sorted xs \<Longrightarrow> y \<in> set (dropWhile (\<lambda>y. y \<le> x) xs) \<Longrightarrow> x < (y::rat)"
  by (induction xs) (auto split: if_splits)

lemma insort_py_sorted: "sorted xs \<Longrightarrow> sorted (insort_py xs x)"
  unfolding insort_py_def
  by (auto simp: sorted_append sorted_takeWhile sorted_dropWhile
      dest: set_takeWhileD dropWhile_sorted_gt less_imp_le intro: order_trans)

lemma insort_py_distinct: "distinct xs \<Longrightarrow> x \<notin> set xs \<Longrightarrow> distinct (insort_py xs x)"
  unfolding insort_py_def
  by (auto dest: set_takeWhileD set_dropWhileD)
     (metis distinct_append takeWhile_dropWhile_id disjoint_iff)


lemma book_for_side_set_book [simp]:
  "book_for_side s (set_book_for_side s' m b) = (if s = s' then m else book_for_side s b)"
  by (cases s; cases s') (simp_all add: book_for_side_def set_book_for_side_def)

lemma levels_for_side_set_book [simp]:
  "levels_for_side s (set_book_for_side s' m b) = levels_for_side s b"
  by (simp add: levels_for_side_def set_book_for_side_def)

lemma book_for_side_set_levels [simp]:
  "book_for_side s (set_levels_for_side s' ps b) = book_for_side s b"
  by (simp add: book_for_side_def set_levels_for_side_def)

lemma levels_for_side_set_levels [simp]:
  "levels_for_side s (set_levels_for_side s' ps b) = (if s = s' then ps else levels_for_side s b)"
  by (cases s; cases s') (simp_all add: levels_for_side_def set_levels_for_side_def)

lemma order_index_set_book [simp]: "order_index (set_book_for_side s m b) = order_index b"
  by (simp add: set_book_for_side_def)

lemma order_index_set_levels [simp]: "order_index (set_levels_for_side s ps b) = order_index b"
  by (simp add: set_levels_for_side_def)

lemma book_for_side_index_update [simp]:
  "book_for_side s (b\<lparr>order_index := i\<rparr>) = book_for_side s b"
  by (simp add: book_for_side_def)

lemma levels_for_side_index_update [simp]:
  "levels_for_side s (b\<lparr>order_index := i\<rparr>) = levels_for_side s b"
  by (simp add: levels_for_side_def)

lemma uncrossed_levels:
  "uncrossed b \<longleftrightarrow>
     (\<forall>x \<in> set (levels_for_side BID b). \<forall>y \<in> set (levels_for_side ASK b). x < y)"
  by (simp add: uncrossed_def levels_for_side_def)

lemma remove_price_level_other [simp]:
  "s' \<noteq> s \<Longrightarrow> book_for_side s' (remove_price_level s p b) = book_for_side s' b"
  "s' \<noteq> s \<Longrightarrow> levels_for_side s' (remove_price_level s p b) = levels_for_side s' b"
  by (simp_all add: remove_price_level_def Let_def)

lemma remove_price_level_index [simp]:
  "order_index (remove_price_level s p b) = order_index b"
  by (simp add: remove_price_level_def Let_def)

lemma remove_price_level_levels:
  assumes "side_wf s b" "p \<in> dom (book_for_side s b)"
  shows "levels_for_side s (remove_price_level s p b) = remove1 p (levels_for_side s b)"
proof -
  from assms have "sorted (levels_for_side s b)" "distinct (levels_for_side s b)"
    "p \<in> set (levels_for_side s b)"
    by (auto simp: side_wf_def)
  from bisect_left_sorted [OF this] show ?thesis
    by (simp add: remove_price_level_def Let_def)
qed

lemma side_wf_remove_price_level:
  assumes "side_wf s b" "p \<in> dom (book_for_side s b)"
  shows "side_wf s (remove_price_level s p b)"
  using assms remove_price_level_levels [OF assms]
  by (auto simp: side_wf_def book_remove_price_level sorted_remove1)

lemma side_wf_remove_price_level_other:
  "s' \<noteq> s \<Longrightarrow> side_wf s' (remove_price_level s p b) = side_wf s' b"
  by (simp add: side_wf_def)

lemma side_wf_queue_update:
  assumes "side_wf s b" "book_for_side s' b p \<noteq> None"
  shows "side_wf s ((set_book_for_side s' ((book_for_side s' b)(p \<mapsto> q)) b)\<lparr>order_index := i\<rparr>)"
  using assms by (auto simp: side_wf_def)

lemma side_wf_index_update [simp]: "side_wf s (b\<lparr>order_index := i\<rparr>) = side_wf s b"
  by (simp add: side_wf_def)

lemma uncrossed_index_update [simp]: "uncrossed (b\<lparr>order_index := i\<rparr>) = uncrossed b"
  by (simp add: uncrossed_def)

lemma uncrossed_subset:
  assumes "uncrossed b"
    "set (levels_for_side BID b') \<subseteq> set (levels_for_side BID b)"
    "set (levels_for_side ASK b') \<subseteq> set (levels_for_side ASK b)"
  shows "uncrossed b'"
  using assms unfolding uncrossed_levels by blast


lemma match_queue_taker:
  "match_queue bp queue idx taker = (q, i, t, trs) \<Longrightarrow> \<exists>k. t = taker\<lparr>qty := k\<rparr>"
proof (induction queue arbitrary: idx taker q i t trs)
  case Nil
  then show ?case by (auto intro: exI [of _ "qty taker"])
next
  case (Cons maker rest)
  show ?case
  proof (cases "qty taker > 0 \<and> qty maker \<le> qty taker")
    case True
    with Cons.prems obtain trs' where
      "match_queue bp rest (idx(order_id maker := None)) (taker\<lparr>qty := qty taker - qty maker\<rparr>)
         = (q, i, t, trs')"
      by (auto simp: match_queue_Cons split: prod.splits)
    from Cons.IH [OF this] show ?thesis by auto
  next
    case False
    with Cons.prems show ?thesis
      by (auto simp: match_queue_Cons split: if_splits intro: exI [of _ "qty taker"])
  qed
qed

definition limit_stops :: "Order \<Rightarrow> rat \<Rightarrow> bool" where
  "limit_stops taker best_price \<longleftrightarrow>
     order_type taker = LIMIT \<and> price taker \<noteq> None \<and>
     ((side taker = BID \<and> the (price taker) < best_price) \<or>
      (side taker = ASK \<and> the (price taker) > best_price))"

definition write_level ::
  "Side \<Rightarrow> rat \<Rightarrow> Order list \<Rightarrow> (string \<rightharpoonup> (Side \<times> rat \<times> string)) \<Rightarrow> LimitOrderBook
     \<Rightarrow> LimitOrderBook" where
  "write_level s p q i b =
     (set_book_for_side s ((book_for_side s b)(p \<mapsto> q)) b)\<lparr>order_index := i\<rparr>"

lemma match_body_Next:
  assumes "match_body b taker = Next b' taker' trs"
  shows "\<exists>bp queue queue' idx'.
    best_opposing b taker = Some bp \<and>
    \<not> limit_stops taker bp \<and>
    book_for_side (opposite (side taker)) b bp = Some queue \<and>
    match_queue bp queue (order_index b) taker = (queue', idx', taker', trs) \<and>
    b' = (if queue' = []
          then remove_price_level (opposite (side taker)) bp
                 (write_level (opposite (side taker)) bp queue' idx' b)
          else write_level (opposite (side taker)) bp queue' idx' b)"
  using assms
  by (auto simp: match_body_def Let_def limit_stops_def write_level_def
      split: option.splits if_splits prod.splits)

lemma match_body_Break:
  "match_body b taker = Break \<longleftrightarrow>
     (case best_opposing b taker of None \<Rightarrow> True | Some bp \<Rightarrow> limit_stops taker bp)"
  by (auto simp: match_body_def Let_def limit_stops_def split: option.splits if_splits prod.splits)

lemma opposite_neq [simp]: "opposite s \<noteq> s" "s \<noteq> opposite s"
  by (cases s; simp)+

lemma write_level_simps [simp]:
  "book_for_side s' (write_level s p q i b) =
     (if s' = s then (book_for_side s b)(p \<mapsto> q) else book_for_side s' b)"
  "levels_for_side s' (write_level s p q i b) = levels_for_side s' b"
  "order_index (write_level s p q i b) = i"
  by (simp_all add: write_level_def)

lemma side_wf_write_level:
  "side_wf s' b \<Longrightarrow> book_for_side s b p \<noteq> None \<Longrightarrow> side_wf s' (write_level s p q i b)"
  by (auto simp: side_wf_def)

lemma match_body_levels:
  assumes "match_body b taker = Next b' taker' trs" and wf: "side_wf (opposite (side taker)) b"
  shows "side_wf (opposite (side taker)) b'"
    and "levels_for_side (side taker) b' = levels_for_side (side taker) b"
    and "book_for_side (side taker) b' = book_for_side (side taker) b"
    and "set (levels_for_side (opposite (side taker)) b')
           \<subseteq> set (levels_for_side (opposite (side taker)) b)"
proof -
  let ?ms = "opposite (side taker)"
  from match_body_Next [OF assms(1)] obtain bp queue queue' idx' where
    bk: "book_for_side ?ms b bp = Some queue"
    and b': "b' = (if queue' = [] then remove_price_level ?ms bp (write_level ?ms bp queue' idx' b)
          else write_level ?ms bp queue' idx' b)"
    by blast
  define b1 where "b1 = write_level ?ms bp queue' idx' b"
  have wf1: "side_wf ?ms b1" unfolding b1_def
    using wf bk by (intro side_wf_write_level) auto
  have dom1: "bp \<in> dom (book_for_side ?ms b1)" by (simp add: b1_def)
  have lv1: "levels_for_side s b1 = levels_for_side s b" for s by (simp add: b1_def)
  have bk1: "book_for_side (side taker) b1 = book_for_side (side taker) b"
    by (simp add: b1_def)
  have b'1: "b' = (if queue' = [] then remove_price_level ?ms bp b1 else b1)"
    using b' by (simp add: b1_def)
  show "side_wf ?ms b'"
    using b'1 wf1 side_wf_remove_price_level [OF wf1 dom1] by simp
  show "levels_for_side (side taker) b' = levels_for_side (side taker) b"
    using b'1 lv1 by simp
  show "book_for_side (side taker) b' = book_for_side (side taker) b"
    using b'1 bk1 by simp
  show "set (levels_for_side ?ms b') \<subseteq> set (levels_for_side ?ms b)"
    using b'1 remove_price_level_levels [OF wf1 dom1] lv1
    by (auto dest: set_remove1_subset [THEN subsetD])
qed

text \<open>What the outer loop leaves: the taker is exhausted, or the next pass would break.\<close>

lemma match_levels:
  assumes "match b taker = Inr (b', taker', trs)" "side_wf (opposite (side taker)) b"
  shows "side_wf (opposite (side taker)) b' \<and>
         levels_for_side (side taker) b' = levels_for_side (side taker) b \<and>
         book_for_side (side taker) b' = book_for_side (side taker) b \<and>
         set (levels_for_side (opposite (side taker)) b')
           \<subseteq> set (levels_for_side (opposite (side taker)) b) \<and>
         (\<exists>k. taker' = taker\<lparr>qty := k\<rparr>) \<and>
         (qty taker' \<le> 0 \<or> match_body b' taker' = Break)"
  using assms
proof (induction b taker arbitrary: b' taker' trs rule: match.induct)
  case (1 b taker)
  show ?case
  proof (cases "qty taker > 0")
    case False
    with "1.prems" show ?thesis
      by (auto simp: match.simps [of b taker] intro: exI [of _ "qty taker"])
  next
    case pos: True
    show ?thesis
    proof (cases "match_body b taker")
      case Break
      with pos "1.prems" show ?thesis
        by (auto simp: match.simps [of b taker] intro: exI [of _ "qty taker"])
    next
      case (Raise e)
      with pos "1.prems" show ?thesis by (simp add: match.simps [of b taker])
    next
      case (Next b1 taker1 trs1)
      with pos "1.prems" obtain trs2 where
        rec: "match b1 taker1 = Inr (b', taker', trs2)"
        by (auto simp: match.simps [of b taker] split: sum.splits)
      from match_body_Next [OF Next] obtain bp queue queue' idx' where
        "match_queue bp queue (order_index b) taker = (queue', idx', taker1, trs1)"
        by blast
      then obtain k1 where t1: "taker1 = taker\<lparr>qty := k1\<rparr>"
        using match_queue_taker by blast
      then have sd: "side taker1 = side taker" by simp
      note step = match_body_levels [OF Next "1.prems"(2)]
      have "side_wf (opposite (side taker1)) b1" using step(1) sd by simp
      from "1.IH" [OF pos Next rec this] step sd t1 show ?thesis
        by auto
    qed
  qed
qed


lemma best_ask_least:
  assumes "side_wf ASK b"
  shows "(best_ask b = None \<longrightarrow> levels_for_side ASK b = []) \<and>
         (\<forall>a. best_ask b = Some a \<longrightarrow> a \<in> set (levels_for_side ASK b) \<and> (\<forall>y \<in> set (levels_for_side ASK b). a \<le> y))"
  using assms
  by (cases "ask_prices b") (auto simp: side_wf_def best_ask_def levels_for_side_def)

lemma best_bid_greatest:
  assumes "side_wf BID b"
  shows "(best_bid b = None \<longrightarrow> levels_for_side BID b = []) \<and>
         (\<forall>a. best_bid b = Some a \<longrightarrow> a \<in> set (levels_for_side BID b) \<and> (\<forall>y \<in> set (levels_for_side BID b). y \<le> a))"
proof (cases "bid_prices b" rule: rev_cases)
  case Nil
  then show ?thesis by (simp add: best_bid_def levels_for_side_def)
next
  case (snoc ys y)
  with assms show ?thesis
    by (auto simp: side_wf_def best_bid_def levels_for_side_def sorted_append)
qed

lemma Break_limit_clear:
  assumes "match_body b ord = Break" "side_wf (opposite (side ord)) b"
    "order_type ord = LIMIT" "price ord = Some p"
  shows "(side ord = BID \<longrightarrow> (\<forall>y \<in> set (levels_for_side ASK b). p < y)) \<and>
         (side ord = ASK \<longrightarrow> (\<forall>x \<in> set (levels_for_side BID b). x < p))"
proof (cases "side ord")
  case BID
  with assms have wf: "side_wf ASK b" by simp
  from assms(1) BID assms(3,4) have "best_ask b = None \<or> (\<exists>a. best_ask b = Some a \<and> p < a)"
    by (auto simp: match_body_Break best_opposing_def limit_stops_def split: option.splits)
  with best_ask_least [OF wf] BID show ?thesis by fastforce
next
  case ASK
  with assms have wf: "side_wf BID b" by simp
  from assms(1) ASK assms(3,4) have "best_bid b = None \<or> (\<exists>a. best_bid b = Some a \<and> a < p)"
    by (auto simp: match_body_Break best_opposing_def limit_stops_def split: option.splits)
  with best_bid_greatest [OF wf] ASK show ?thesis by fastforce
qed

lemma not_marketable_Break:
  assumes "\<not> is_marketable b ord" "price ord \<noteq> None"
  shows "match_body b ord = Break"
  using assms
  by (cases "side ord"; cases "order_type ord")
    (auto simp: is_marketable_def match_body_Break best_opposing_def limit_stops_def
      split: option.splits if_splits)

lemma add_resting_levels:
  assumes "add_resting b ord = Inr b'" "price ord = Some p"
  shows "levels_for_side (opposite (side ord)) b' = levels_for_side (opposite (side ord)) b"
    and "book_for_side (opposite (side ord)) b' = book_for_side (opposite (side ord)) b"
    and "set (levels_for_side (side ord) b') =
           (if book_for_side (side ord) b p = None then insert p (set (levels_for_side (side ord) b))
            else set (levels_for_side (side ord) b))"
  using assms
  by (auto simp: add_resting_def Let_def split: if_splits)

lemma add_resting_side_wf:
  assumes "add_resting b ord = Inr b'" "side_wf (side ord) b"
  shows "side_wf (side ord) b'"
proof -
  from assms(1) obtain p where p: "price ord = Some p"
    by (auto simp: add_resting_def split: option.splits)
  show ?thesis
  proof (cases "book_for_side (side ord) b p = None")
    case True
    then have "p \<notin> set (levels_for_side (side ord) b)"
      using assms(2) by (auto simp: side_wf_def)
    then have "distinct (insort_py (levels_for_side (side ord) b) p)"
      using assms(2) by (simp add: side_wf_def insort_py_distinct)
    then show ?thesis
      using assms True p
      by (auto simp: add_resting_def Let_def side_wf_def insort_py_sorted)
  next
    case False
    then show ?thesis
      using assms p by (auto simp: add_resting_def Let_def side_wf_def split: if_splits)
  qed
qed

lemma side_wf_cong:
  "levels_for_side s b' = levels_for_side s b \<Longrightarrow> book_for_side s b' = book_for_side s b \<Longrightarrow>
   side_wf s b' = side_wf s b"
  by (simp add: side_wf_def)

lemma add_resting_levels_wf:
  assumes "levels_wf b" "add_resting b ord = Inr b'" "price ord = Some p"
    "side ord = BID \<longrightarrow> (\<forall>y \<in> set (levels_for_side ASK b). p < y)"
    "side ord = ASK \<longrightarrow> (\<forall>x \<in> set (levels_for_side BID b). x < p)"
  shows "levels_wf b'"
proof -
  note r = add_resting_levels [OF assms(2,3)]
  have in_dom: "book_for_side (side ord) b p \<noteq> None \<Longrightarrow> p \<in> set (levels_for_side (side ord) b)"
    using assms(1) by (cases "side ord") (auto simp: levels_wf_def side_wf_def)
  show ?thesis
  proof (cases "side ord")
    case BID
    then have "side_wf BID b'" "side_wf ASK b'"
      using add_resting_side_wf [OF assms(2)] assms(1) side_wf_cong [OF r(1) r(2)]
      by (auto simp: levels_wf_def)
    moreover have "uncrossed b'"
      using assms(1,4) r(1,3) BID in_dom
      by (auto simp: levels_wf_def uncrossed_levels split: if_splits)
    ultimately show ?thesis by (simp add: levels_wf_def)
  next
    case ASK
    then have "side_wf BID b'" "side_wf ASK b'"
      using add_resting_side_wf [OF assms(2)] assms(1) side_wf_cong [OF r(1) r(2)]
      by (auto simp: levels_wf_def)
    moreover have "uncrossed b'"
      using assms(1,5) r(1,3) ASK in_dom
      by (auto simp: levels_wf_def uncrossed_levels split: if_splits)
    ultimately show ?thesis by (simp add: levels_wf_def)
  qed
qed

lemma match_levels_wf:
  assumes "levels_wf b" "match b taker = Inr (b', taker', trs)"
  shows "levels_wf b'"
proof -
  have wf: "side_wf (opposite (side taker)) b" "side_wf (side taker) b"
    using assms(1) by (cases "side taker"; simp add: levels_wf_def)+
  note m = match_levels [OF assms(2) wf(1)]
  have "side_wf (side taker) b'"
    using m wf(2) side_wf_cong [of "side taker" b' b] by simp
  moreover have "uncrossed b'"
    using assms(1) m by (cases "side taker") (auto simp: levels_wf_def uncrossed_levels)
  ultimately show ?thesis using m by (cases "side taker") (auto simp: levels_wf_def)
qed

lemma add_order_levels_wf:
  assumes "levels_wf b" "add_order b ord = Inr (b', ord', trs)"
  shows "levels_wf b'"
proof -
  define r where "r = (if order_type ord = MARKET \<or> is_marketable b ord then match b ord
            else Inr (b, ord, []))"
  from assms(2) obtain b1 where r: "r = Inr (b1, ord', trs)"
    and rest: "b' = b1 \<and> \<not> (order_type ord' = LIMIT \<and> qty ord' > 0) \<or>
       order_type ord' = LIMIT \<and> qty ord' > 0 \<and> add_resting b1 ord' = Inr b'"
    unfolding add_order_def r_def [symmetric]
    by (auto split: sum.splits if_splits)
  have wf1: "levels_wf b1" and same: "\<exists>k. ord' = ord\<lparr>qty := k\<rparr>"
    and brk: "qty ord' \<le> 0 \<or> price ord' = None \<or> match_body b1 ord' = Break"
  proof -
    show "levels_wf b1"
      using r assms(1) match_levels_wf unfolding r_def by (auto split: if_splits)
    have wfo: "side_wf (opposite (side ord)) b"
      using assms(1) by (cases "side ord"; simp add: levels_wf_def)
    show "\<exists>k. ord' = ord\<lparr>qty := k\<rparr>"
      using r match_levels [OF _ wfo] unfolding r_def
      by (auto split: if_splits intro: exI [of _ "qty ord"])
    show "qty ord' \<le> 0 \<or> price ord' = None \<or> match_body b1 ord' = Break"
    proof (cases "order_type ord = MARKET \<or> is_marketable b ord")
      case True
      then have "match b ord = Inr (b1, ord', trs)" using r by (simp add: r_def)
      from match_levels [OF this wfo] show ?thesis by blast
    next
      case False
      then have "b1 = b" "ord' = ord" "\<not> is_marketable b ord" using r by (auto simp: r_def)
      then show ?thesis using not_marketable_Break [of b ord] by blast
    qed
  qed
  from rest show ?thesis
  proof
    assume "b' = b1 \<and> \<not> (order_type ord' = LIMIT \<and> qty ord' > 0)"
    then show ?thesis using wf1 by simp
  next
    assume a: "order_type ord' = LIMIT \<and> qty ord' > 0 \<and> add_resting b1 ord' = Inr b'"
    then obtain p where p: "price ord' = Some p"
      by (auto simp: add_resting_def split: option.splits)
    with a brk have "match_body b1 ord' = Break" by auto
    moreover have "side_wf (opposite (side ord')) b1"
      using wf1 by (cases "side ord'"; simp add: levels_wf_def)
    ultimately have clear: "(side ord' = BID \<longrightarrow> (\<forall>y \<in> set (levels_for_side ASK b1). p < y)) \<and>
         (side ord' = ASK \<longrightarrow> (\<forall>x \<in> set (levels_for_side BID b1). x < p))"
      using Break_limit_clear a p by blast
    show ?thesis
      using add_resting_levels_wf [OF wf1 _ p] a clear by blast
  qed
qed


lemma cancel_cases:
  obtains (unknown) "order_index b oid = None" "cancel b oid = (False, b)"
  | (stale) "order_index b oid \<noteq> None"
      "cancel b oid = (False, b\<lparr>order_index := (order_index b)(oid := None)\<rparr>)"
  | (found) s p w queue where "order_index b oid = Some (s, p, w)"
      "book_for_side s b p = Some queue" "\<exists>resting \<in> set queue. order_id resting = oid"
      "cancel b oid =
         (True,
          if del_first oid queue = []
          then remove_price_level s p
                 (write_level s p (del_first oid queue) ((order_index b)(oid := None)) b)
          else write_level s p (del_first oid queue) ((order_index b)(oid := None)) b)"
proof (cases "order_index b oid")
  case None
  then show ?thesis using unknown by (simp add: cancel_def)
next
  case (Some e)
  obtain s p w where e: "e = (s, p, w)" by (cases e)
  show ?thesis
  proof (cases "book_for_side s b p")
    case None
    then show ?thesis using stale Some e by (simp add: cancel_def)
  next
    case q: (Some queue)
    show ?thesis
    proof (cases "\<exists>resting \<in> set queue. order_id resting = oid")
      case False
      then show ?thesis using stale Some e q by (simp add: cancel_def)
    next
      case True
      then show ?thesis using found [of s p w queue] Some e q
        by (simp add: cancel_def Let_def write_level_def)
    qed
  qed
qed

lemma levels_wf_index_update [simp]: "levels_wf (b\<lparr>order_index := i\<rparr>) = levels_wf b"
  by (simp add: levels_wf_def)

lemma levels_wf_write_level:
  assumes "levels_wf b" "book_for_side s b p \<noteq> None"
  shows "levels_wf (write_level s p q i b)"
  using assms side_wf_write_level [OF _ assms(2)]
  by (auto simp: levels_wf_def uncrossed_levels)

lemma levels_wf_remove_price_level:
  assumes "levels_wf b" "p \<in> dom (book_for_side s b)"
  shows "levels_wf (remove_price_level s p b)"
proof -
  have wfs: "side_wf s b" using assms(1) by (cases s; simp add: levels_wf_def)
  have "side_wf s (remove_price_level s p b)"
    by (rule side_wf_remove_price_level [OF wfs assms(2)])
  moreover have "side_wf (opposite s) (remove_price_level s p b)"
    using assms(1) by (cases s; simp add: levels_wf_def side_wf_remove_price_level_other)
  moreover have "uncrossed (remove_price_level s p b)"
    using assms(1) remove_price_level_levels [OF wfs assms(2)]
    by (cases s) (auto simp: levels_wf_def uncrossed_levels dest: set_remove1_subset [THEN subsetD])
  ultimately show ?thesis by (cases s; simp add: levels_wf_def)
qed

lemma cancel_levels_wf:
  assumes "levels_wf b"
  shows "levels_wf (snd (cancel b oid))"
proof (cases rule: cancel_cases [of b oid])
  case unknown
  then show ?thesis using assms by simp
next
  case stale
  then show ?thesis using assms by simp
next
  case (found s p w queue)
  have 1: "levels_wf (write_level s p (del_first oid queue) ((order_index b)(oid := None)) b)"
    using assms found(2) by (intro levels_wf_write_level) auto
  have "p \<in> dom (book_for_side s
      (write_level s p (del_first oid queue) ((order_index b)(oid := None)) b))"
    by simp
  from levels_wf_remove_price_level [OF 1 this] 1 found(4) show ?thesis by auto
qed

lemma levels_wf_empty: "levels_wf empty_book"
  by (simp add: levels_wf_def side_wf_def uncrossed_def empty_book_def levels_for_side_def
      book_for_side_def)

text \<open>The states of a book: built by any sequence of completed operations.\<close>

inductive reachable :: "LimitOrderBook \<Rightarrow> bool" where
  reachable_init: "reachable empty_book"
| reachable_add_order:
    "reachable b \<Longrightarrow> add_order b ord = Inr (b', ord', trs) \<Longrightarrow> reachable b'"
| reachable_cancel:
    "reachable b \<Longrightarrow> cancel b oid = (r, b') \<Longrightarrow> reachable b'"

lemma reachable_levels_wf: "reachable b \<Longrightarrow> levels_wf b"
proof (induction rule: reachable.induct)
  case reachable_init
  show ?case by (rule levels_wf_empty)
next
  case (reachable_add_order b ord b' ord' trs)
  then show ?case using add_order_levels_wf by blast
next
  case (reachable_cancel b oid r b')
  then show ?case using cancel_levels_wf [of b oid] by simp
qed

section \<open>A worked example\<close>

text \<open>
  A small book, built by five submissions to the empty book: two bids queued at 99 and
  three asks on two levels. It is the concrete input of the examples below.
\<close>

lemmas book_eval = add_order_def is_marketable_def best_ask_def best_bid_def empty_book_def add_resting_def
     book_for_side_def levels_for_side_def set_book_for_side_def set_levels_for_side_def insort_py_def Let_def
     match.simps match_body_def best_opposing_def match_queue_Cons remove_price_level_def bisect_left_def
     cancel_def make_trade_def

definition ord_A :: Order where
  "ord_A = \<lparr>order_id = ''ORD-1'', timestamp = 0, side = BID, order_type = LIMIT, qty = 5,
     price = Some 99, owner = ''FLOW''\<rparr>"

definition ord_B :: Order where
  "ord_B = \<lparr>order_id = ''ORD-2'', timestamp = 0, side = BID, order_type = LIMIT, qty = 7,
     price = Some 99, owner = ''MM''\<rparr>"

definition ord_C :: Order where
  "ord_C = \<lparr>order_id = ''ORD-3'', timestamp = 0, side = ASK, order_type = LIMIT, qty = 4,
     price = Some 101, owner = ''FLOW''\<rparr>"

definition ord_D :: Order where
  "ord_D = \<lparr>order_id = ''ORD-4'', timestamp = 0, side = ASK, order_type = LIMIT, qty = 6,
     price = Some 101, owner = ''MM''\<rparr>"

definition ord_E :: Order where
  "ord_E = \<lparr>order_id = ''ORD-5'', timestamp = 0, side = ASK, order_type = LIMIT, qty = 3,
     price = Some 102, owner = ''FLOW''\<rparr>"

definition example_book :: LimitOrderBook where
  "example_book =
     \<lparr>bids = [99 \<mapsto> [ord_A, ord_B]],
      asks = [101 \<mapsto> [ord_C, ord_D], 102 \<mapsto> [ord_E]],
      bid_prices = [99], ask_prices = [101, 102],
      order_index = [''ORD-1'' \<mapsto> (BID, 99, ''FLOW''), ''ORD-2'' \<mapsto> (BID, 99, ''MM''),
        ''ORD-3'' \<mapsto> (ASK, 101, ''FLOW''), ''ORD-4'' \<mapsto> (ASK, 101, ''MM''),
        ''ORD-5'' \<mapsto> (ASK, 102, ''FLOW'')]\<rparr>"

fun add_orders :: "LimitOrderBook \<Rightarrow> Order list \<Rightarrow> error + LimitOrderBook" where
  "add_orders b [] = Inr b"
| "add_orders b (ord # ords) =
     (case add_order b ord of Inl e \<Rightarrow> Inl e | Inr (b', _, _) \<Rightarrow> add_orders b' ords)"

lemma add_orders_reachable: "reachable b \<Longrightarrow> add_orders b ords = Inr b' \<Longrightarrow> reachable b'"
proof (induction ords arbitrary: b)
  case Nil
  then show ?case by simp
next
  case (Cons ord ords)
  then show ?case
    by (auto split: sum.splits intro: reachable_add_order)
qed

lemma example_book_built:
  "add_orders empty_book [ord_A, ord_B, ord_C, ord_D, ord_E] = Inr example_book"
  by (simp add: book_eval ord_A_def ord_B_def ord_C_def ord_D_def ord_E_def example_book_def)

lemma example_book_reachable: "reachable example_book"
  using add_orders_reachable [OF reachable_init example_book_built] .

section \<open>Price ordering\<close>

text \<open>
  Claim C3 (price ordering). After every completed operation of the book (\<open>add_order\<close>
  or \<open>cancel\<close>, from the empty book, with any orders and ids), whenever the best bid and
  the best ask are both defined the best bid is strictly below the best ask; and every
  resting bid price level is strictly below every resting ask price level.
\<close>

theorem book_never_crosses:
  assumes "reachable b"
  shows "(\<forall>x y. best_bid b = Some x \<longrightarrow> best_ask b = Some y \<longrightarrow> x < y) \<and>
         (\<forall>x \<in> dom (bids b). \<forall>y \<in> dom (asks b). x < y) \<and>
         (\<forall>x \<in> set (bid_prices b). \<forall>y \<in> set (ask_prices b). x < y)"
proof -
  have wf: "levels_wf b" using assms by (rule reachable_levels_wf)
  then have sb: "side_wf BID b" and sa: "side_wf ASK b" and un: "uncrossed b"
    by (simp_all add: levels_wf_def)
  have lists: "\<forall>x \<in> set (bid_prices b). \<forall>y \<in> set (ask_prices b). x < y"
    using un by (simp add: uncrossed_def)
  moreover have "\<forall>x \<in> dom (bids b). \<forall>y \<in> dom (asks b). x < y"
    using sb sa lists by (simp add: side_wf_def levels_for_side_def book_for_side_def)
  moreover have "\<forall>x y. best_bid b = Some x \<longrightarrow> best_ask b = Some y \<longrightarrow> x < y"
    using best_bid_greatest [OF sb] best_ask_least [OF sa] lists
    by (auto simp: levels_for_side_def)
  ultimately show ?thesis by blast
qed


theorem book_never_crosses_witness:
  "reachable example_book \<and> best_bid example_book = Some 99 \<and>
   best_ask example_book = Some 101 \<and> (99::rat) < 101"
proof -
  have r: "reachable example_book" by (rule example_book_reachable)
  have "best_bid example_book = Some 99" "best_ask example_book = Some 101"
    by (simp_all add: best_bid_def best_ask_def example_book_def)
  with book_never_crosses [OF r] r show ?thesis by blast
qed

section \<open>The inner loop in closed form\<close>

lemma make_trade_qty_irrelevant [simp]:
  "make_trade bp f (t\<lparr>qty := k\<rparr>) m = make_trade bp f t m"
  by (simp add: make_trade_def)

lemma make_trade_sel [simp]:
  "trade_qty (make_trade bp f t m) = f"
  "trade_price (make_trade bp f t m) = bp"
  "maker_order_id (make_trade bp f t m) = order_id m"
  "taker_order_id (make_trade bp f t m) = order_id t"
  "maker_owner (make_trade bp f t m) = owner m"
  "taker_owner (make_trade bp f t m) = owner t"
  "taker_side (make_trade bp f t m) = side t"
  by (simp_all add: make_trade_def)

text \<open>
  The inner loop in closed form, on a queue of positive quantities: it fills the first
  \<open>n\<close> makers completely, and then either stops (queue exhausted or taker exhausted)
  or fills part of the next maker with what the taker has left.
\<close>

definition full_fills :: "rat \<Rightarrow> Order \<Rightarrow> Order list \<Rightarrow> Trade list" where
  "full_fills bp t ms = map (\<lambda>m. make_trade bp (qty m) t m) ms"

lemma full_fills_simps [simp]:
  "full_fills bp t [] = []"
  "full_fills bp t (m # ms) = make_trade bp (qty m) t m # full_fills bp t ms"
  "full_fills bp (t\<lparr>qty := k\<rparr>) ms = full_fills bp t ms"
  by (simp_all add: full_fills_def)

lemma sum_full_fills [simp]:
  "sum_list (map trade_qty (full_fills bp t ms)) = sum_list (map qty ms)"
  by (induction ms) simp_all

definition queue_pass ::
  "rat \<Rightarrow> Order list \<Rightarrow> (string \<rightharpoonup> (Side \<times> rat \<times> string)) \<Rightarrow> Order \<Rightarrow> nat
     \<Rightarrow> Order list \<Rightarrow> (string \<rightharpoonup> (Side \<times> rat \<times> string)) \<Rightarrow> Order \<Rightarrow> Trade list \<Rightarrow> bool" where
  "queue_pass bp q idx t n q' idx' t' trs \<longleftrightarrow>
     n \<le> length q \<and>
     idx' = idx |` (- order_id ` set (take n q)) \<and>
     t' = t\<lparr>qty := qty t - sum_list (map trade_qty trs)\<rparr> \<and> 0 \<le> qty t' \<and>
     ((q' = drop n q \<and> trs = full_fills bp t (take n q) \<and> (q' = [] \<or> qty t' = 0)) \<or>
      (n < length q \<and> qty t' = 0 \<and>
       (\<exists>r. 0 < r \<and> r < qty (q ! n) \<and>
            q' = (q ! n)\<lparr>qty := qty (q ! n) - r\<rparr> # drop (Suc n) q \<and>
            trs = full_fills bp t (take n q) @ [make_trade bp r t (q ! n)])))"

lemma match_queue_shape:
  assumes "match_queue bp q idx t = (q', idx', t', trs)" "\<forall>m \<in> set q. 0 < qty m" "0 \<le> qty t"
  shows "\<exists>n. queue_pass bp q idx t n q' idx' t' trs"
  using assms
proof (induction q arbitrary: idx t q' idx' t' trs)
  case Nil
  then have "queue_pass bp [] idx t 0 q' idx' t' trs"
    by (auto simp: queue_pass_def)
  then show ?case ..
next
  case (Cons m rest)
  consider (stop) "qty t = 0" | (full) "0 < qty t" "qty m \<le> qty t" | (part) "0 < qty t" "qty t < qty m"
    using Cons.prems(3) by linarith
  then show ?case
  proof cases
    case stop
    with Cons.prems have "queue_pass bp (m # rest) idx t 0 q' idx' t' trs"
      by (auto simp: queue_pass_def match_queue_Cons)
    then show ?thesis ..
  next
    case part
    with Cons.prems have "queue_pass bp (m # rest) idx t 0 q' idx' t' trs"
      by (auto simp: queue_pass_def match_queue_Cons intro!: exI [of _ "qty t"])
    then show ?thesis ..
  next
    case full
    with Cons.prems(1) obtain trs1 where
      rec: "match_queue bp rest (idx(order_id m := None)) (t\<lparr>qty := qty t - qty m\<rparr>)
              = (q', idx', t', trs1)"
      and trs: "trs = make_trade bp (qty m) t m # trs1"
      by (auto simp: match_queue_Cons split: prod.splits)
    have "\<forall>m \<in> set rest. 0 < qty m" using Cons.prems(2) by simp
    moreover have "0 \<le> qty (t\<lparr>qty := qty t - qty m\<rparr>)" using full by simp
    ultimately obtain n where
      n: "queue_pass bp rest (idx(order_id m := None)) (t\<lparr>qty := qty t - qty m\<rparr>) n q' idx' t' trs1"
      using Cons.IH [OF rec] by blast
    have idx_eq: "(idx(order_id m := None)) |` (- order_id ` set (take n rest)) =
        idx |` (- order_id ` set (take (Suc n) (m # rest)))"
      by (auto simp: restrict_map_def fun_eq_iff)
    have "queue_pass bp (m # rest) idx t (Suc n) q' idx' t' trs"
      using n trs idx_eq unfolding queue_pass_def
      by (auto simp: algebra_simps)
    then show ?thesis ..
  qed
qed


section \<open>Invariants of the resting orders and of the index\<close>

definition queue_wf :: "Side \<Rightarrow> rat \<Rightarrow> Order list \<Rightarrow> bool" where
  "queue_wf s p q \<longleftrightarrow>
     q \<noteq> [] \<and> distinct (map order_id q) \<and>
     (\<forall>ord \<in> set q. 0 < qty ord \<and> side ord = s \<and> price ord = Some p \<and> order_type ord = LIMIT)"

definition orders_wf :: "LimitOrderBook \<Rightarrow> bool" where
  "orders_wf b \<longleftrightarrow> (\<forall>s p q. book_for_side s b p = Some q \<longrightarrow> queue_wf s p q)"

definition index_wf :: "LimitOrderBook \<Rightarrow> bool" where
  "index_wf b \<longleftrightarrow>
     (\<forall>i s p w. order_index b i = Some (s, p, w) \<longleftrightarrow>
        (\<exists>q ord. book_for_side s b p = Some q \<and> ord \<in> set q \<and> order_id ord = i \<and> owner ord = w))"

definition book_inv :: "LimitOrderBook \<Rightarrow> bool" where
  "book_inv b \<longleftrightarrow> levels_wf b \<and> orders_wf b \<and> index_wf b"

text \<open>A queue after some of its orders have left and others have lost quantity.\<close>

definition shrunk :: "Order list \<Rightarrow> Order list \<Rightarrow> bool" where
  "shrunk q q' \<longleftrightarrow>
     distinct (map order_id q') \<and>
     (\<forall>x \<in> set q'. 0 < qty x \<and> (\<exists>y \<in> set q. \<exists>k. x = y\<lparr>qty := k\<rparr>))"

definition level_shrink ::
  "Side \<Rightarrow> rat \<Rightarrow> Order list \<Rightarrow> (string \<rightharpoonup> (Side \<times> rat \<times> string)) \<Rightarrow> LimitOrderBook
     \<Rightarrow> LimitOrderBook" where
  "level_shrink s p q' idx' b =
     (if q' = [] then remove_price_level s p (write_level s p q' idx' b)
      else write_level s p q' idx' b)"

lemma level_shrink_book:
  "book_for_side s' (level_shrink s p q' idx' b) p' =
     (if s' = s \<and> p' = p then (if q' = [] then None else Some q') else book_for_side s' b p')"
  by (cases "s' = s") (auto simp: level_shrink_def book_remove_price_level)

lemma level_shrink_index [simp]: "order_index (level_shrink s p q' idx' b) = idx'"
  by (simp add: level_shrink_def)

lemma level_shrink_levels_wf:
  assumes "levels_wf b" "book_for_side s b p \<noteq> None"
  shows "levels_wf (level_shrink s p q' idx' b)"
proof -
  have 1: "levels_wf (write_level s p q' idx' b)"
    using assms by (rule levels_wf_write_level)
  have "p \<in> dom (book_for_side s (write_level s p q' idx' b))" by simp
  from levels_wf_remove_price_level [OF 1 this] 1 show ?thesis
    by (auto simp: level_shrink_def)
qed

lemma level_shrink_levels:
  assumes "side_wf s b" "book_for_side s b p \<noteq> None"
  shows "levels_for_side s' (level_shrink s p q' idx' b) =
     (if s' = s \<and> q' = [] then remove1 p (levels_for_side s b) else levels_for_side s' b)"
proof -
  have 1: "side_wf s (write_level s p q' idx' b)"
    using assms by (rule side_wf_write_level)
  have "p \<in> dom (book_for_side s (write_level s p q' idx' b))" by simp
  from remove_price_level_levels [OF 1 this] show ?thesis
    by (cases "s' = s") (auto simp: level_shrink_def)
qed

lemma level_shrink_orders_wf:
  assumes "orders_wf b" "book_for_side s b p = Some q" "shrunk q q'"
  shows "orders_wf (level_shrink s p q' idx' b)"
proof -
  have qwf: "queue_wf s p q" using assms(1,2) by (simp add: orders_wf_def)
  have "queue_wf s p q'" if "q' \<noteq> []"
    using that assms(3) qwf by (fastforce simp: queue_wf_def shrunk_def)
  then show ?thesis
    using assms(1) by (auto simp: orders_wf_def level_shrink_book split: if_splits)
qed

lemma level_shrink_index_wf:
  assumes "orders_wf b" "index_wf b" "book_for_side s b p = Some q" "shrunk q q'"
    "idx' = order_index b |` (- (order_id ` set q - order_id ` set q'))"
  shows "index_wf (level_shrink s p q' idx' b)"
proof -
  have qwf: "queue_wf s p q" using assms(1,3) by (simp add: orders_wf_def)
  then have dq: "distinct (map order_id q)" by (simp add: queue_wf_def)
  have same: "\<exists>y \<in> set q. \<exists>k. x = y\<lparr>qty := k\<rparr>" if "x \<in> set q'" for x
    using that assms(4) by (simp add: shrunk_def)
  have in_q: "order_index b i = Some (s, p, owner y)" if "y \<in> set q" "order_id y = i" for i y
    using that assms(2,3) unfolding index_wf_def by blast
  show ?thesis
    unfolding index_wf_def
  proof (intro allI iffI)
    fix i s1 p1 w
    assume a: "order_index (level_shrink s p q' idx' b) i = Some (s1, p1, w)"
    then have old: "order_index b i = Some (s1, p1, w)"
      and keep: "i \<notin> order_id ` set q - order_id ` set q'"
      using assms(5) by (auto simp: restrict_map_def split: if_splits)
    from old assms(2) obtain q1 ord where
      q1: "book_for_side s1 b p1 = Some q1" "ord \<in> set q1" "order_id ord = i" "owner ord = w"
      unfolding index_wf_def by blast
    show "\<exists>q ord. book_for_side s1 (level_shrink s p q' idx' b) p1 = Some q \<and>
                  ord \<in> set q \<and> order_id ord = i \<and> owner ord = w"
    proof (cases "s1 = s \<and> p1 = p")
      case False
      then show ?thesis using q1 by (auto simp: level_shrink_book)
    next
      case True
      with q1 assms(3) have "q1 = q" by simp
      with q1 keep obtain x where x: "x \<in> set q'" "order_id x = i" by auto
      from same [OF x(1)] obtain y k where y: "y \<in> set q" "x = y\<lparr>qty := k\<rparr>" by blast
      with x have "order_id y = order_id ord" using q1 by simp
      with dq y(1) q1(2) \<open>q1 = q\<close> have "y = ord"
        by (metis distinct_map inj_on_def)
      with y x q1 have "owner x = w" by simp
      moreover have "q' \<noteq> []" using x by auto
      ultimately show ?thesis using True x by (auto simp: level_shrink_book)
    qed
  next
    fix i s1 p1 w
    assume "\<exists>q ord. book_for_side s1 (level_shrink s p q' idx' b) p1 = Some q \<and>
                  ord \<in> set q \<and> order_id ord = i \<and> owner ord = w"
    then obtain q1 ord where
      q1: "book_for_side s1 (level_shrink s p q' idx' b) p1 = Some q1" "ord \<in> set q1"
        "order_id ord = i" "owner ord = w"
      by blast
    show "order_index (level_shrink s p q' idx' b) i = Some (s1, p1, w)"
    proof (cases "s1 = s \<and> p1 = p")
      case True
      with q1 have "q1 = q'" by (auto simp: level_shrink_book split: if_splits)
      with q1 same obtain y k where y: "y \<in> set q" "ord = y\<lparr>qty := k\<rparr>" by blast
      with q1 have "order_index b i = Some (s, p, w)" using in_q [of y i] by simp
      moreover have "i \<in> order_id ` set q'" using q1 \<open>q1 = q'\<close> by auto
      ultimately show ?thesis using True assms(5) by (simp add: restrict_map_def)
    next
      case False
      with q1 have old: "book_for_side s1 b p1 = Some q1" by (auto simp: level_shrink_book)
      with q1 assms(2) have ix: "order_index b i = Some (s1, p1, w)"
        unfolding index_wf_def by blast
      have "i \<notin> order_id ` set q"
      proof
        assume "i \<in> order_id ` set q"
        then obtain y where "y \<in> set q" "order_id y = i" by auto
        from in_q [OF this] ix False show False by simp
      qed
      then show ?thesis using ix assms(5) by (simp add: restrict_map_def)
    qed
  qed
qed

lemma level_shrink_inv:
  assumes "book_inv b" "book_for_side s b p = Some q" "shrunk q q'"
    "idx' = order_index b |` (- (order_id ` set q - order_id ` set q'))"
  shows "book_inv (level_shrink s p q' idx' b)"
  using assms level_shrink_levels_wf [of b s p q' idx'] level_shrink_orders_wf [of b s p q q' idx']
    level_shrink_index_wf [of b s p q q' idx']
  by (simp add: book_inv_def)


lemma queue_pass_shrunk:
  assumes "queue_wf s p q" "queue_pass bp q idx t n q' idx' t' trs"
  shows "shrunk q q'" and "order_id ` set q - order_id ` set q' = order_id ` set (take n q)"
proof -
  from assms(1) have dq: "distinct (map order_id q)" and pos: "\<forall>x \<in> set q. 0 < qty x"
    by (auto simp: queue_wf_def)
  from assms(2) have n: "n \<le> length q" by (simp add: queue_pass_def)
  have split: "map order_id q = map order_id (take n q) @ map order_id (drop n q)"
    by (metis append_take_drop_id map_append)
  with dq have disj: "order_id ` set (take n q) \<inter> order_id ` set (drop n q) = {}"
    and dd: "distinct (map order_id (drop n q))"
    by (metis distinct_append list.set_map, metis distinct_append)
  have un: "order_id ` set q = order_id ` set (take n q) \<union> order_id ` set (drop n q)"
    by (metis append_take_drop_id image_Un set_append)
  from assms(2) consider (exact) "q' = drop n q"
    | (part) r where "n < length q" "0 < r" "r < qty (q ! n)"
        "q' = (q ! n)\<lparr>qty := qty (q ! n) - r\<rparr> # drop (Suc n) q"
    by (auto simp: queue_pass_def)
  then have "shrunk q q' \<and> order_id ` set q' = order_id ` set (drop n q)"
  proof cases
    case exact
    have "\<exists>y \<in> set q. \<exists>k. x = y\<lparr>qty := k\<rparr>" if "x \<in> set (drop n q)" for x
      using that by (intro bexI [of _ x] exI [of _ "qty x"]) (auto dest: in_set_dropD)
    then show ?thesis using exact dd pos by (auto simp: shrunk_def dest: in_set_dropD)
  next
    case part
    then have dn: "drop n q = q ! n # drop (Suc n) q" by (simp add: Cons_nth_drop_Suc)
    have ids: "map order_id q' = map order_id (drop n q)" using part dn by simp
    have "\<exists>y \<in> set q. \<exists>k. x = y\<lparr>qty := k\<rparr>" if "x \<in> set q'" for x
    proof (cases "x \<in> set (drop (Suc n) q)")
      case True
      then show ?thesis
        by (intro bexI [of _ x] exI [of _ "qty x"]) (auto dest: in_set_dropD)
    next
      case False
      with that part have "x = (q ! n)\<lparr>qty := qty (q ! n) - r\<rparr>" by simp
      then show ?thesis using part(1) by (intro bexI [of _ "q ! n"]) auto
    qed
    moreover have "0 < qty x" if "x \<in> set q'" for x
      using that part pos by (auto dest: in_set_dropD)
    moreover have "distinct (map order_id q')" using ids dd by simp
    moreover have "order_id ` set q' = order_id ` set (drop n q)"
      using ids by (metis list.set_map)
    ultimately show ?thesis by (simp add: shrunk_def)
  qed
  then show "shrunk q q'" and "order_id ` set q - order_id ` set q' = order_id ` set (take n q)"
    using un disj by auto
qed

lemma book_inv_side_wf: "book_inv b \<Longrightarrow> side_wf s b"
  by (cases s) (simp_all add: book_inv_def levels_wf_def)

lemma best_opposing_in_dom:
  assumes "side_wf (opposite (side taker)) b" "best_opposing b taker = Some bp"
  shows "bp \<in> set (levels_for_side (opposite (side taker)) b)"
    and "\<exists>q. book_for_side (opposite (side taker)) b bp = Some q"
proof -
  show 1: "bp \<in> set (levels_for_side (opposite (side taker)) b)"
  proof (cases "side taker")
    case BID
    with assms best_ask_least [of b] show ?thesis by (simp add: best_opposing_def)
  next
    case ASK
    with assms best_bid_greatest [of b] show ?thesis by (simp add: best_opposing_def)
  qed
  with assms(1) show "\<exists>q. book_for_side (opposite (side taker)) b bp = Some q"
    by (auto simp: side_wf_def)
qed

lemma match_body_not_Raise:
  assumes "side_wf (opposite (side taker)) b"
  shows "match_body b taker \<noteq> Raise e"
proof (cases "best_opposing b taker")
  case None
  then show ?thesis by (simp add: match_body_def)
next
  case (Some bp)
  from best_opposing_in_dom(2) [OF assms Some] show ?thesis
    using Some by (auto simp: match_body_def Let_def split: prod.splits)
qed

lemma match_body_pass:
  assumes "book_inv b" "match_body b taker = Next b' taker' trs" "0 < qty taker"
  shows "\<exists>bp q n q'.
    best_opposing b taker = Some bp \<and> \<not> limit_stops taker bp \<and>
    book_for_side (opposite (side taker)) b bp = Some q \<and>
    queue_wf (opposite (side taker)) bp q \<and>
    queue_pass bp q (order_index b) taker n q' (order_index b') taker' trs \<and>
    b' = level_shrink (opposite (side taker)) bp q' (order_index b') b \<and>
    book_inv b'"
proof -
  let ?ms = "opposite (side taker)"
  from match_body_Next [OF assms(2)] obtain bp q q' idx' where
    bo: "best_opposing b taker = Some bp" and ls: "\<not> limit_stops taker bp"
    and bk: "book_for_side ?ms b bp = Some q"
    and mq: "match_queue bp q (order_index b) taker = (q', idx', taker', trs)"
    and b': "b' = level_shrink ?ms bp q' idx' b"
    unfolding level_shrink_def by blast
  have qwf: "queue_wf ?ms bp q" using assms(1) bk by (simp add: book_inv_def orders_wf_def)
  then have "\<forall>m \<in> set q. 0 < qty m" by (simp add: queue_wf_def)
  from match_queue_shape [OF mq this] assms(3) obtain n where
    qp: "queue_pass bp q (order_index b) taker n q' idx' taker' trs"
    by auto
  note sh = queue_pass_shrunk [OF qwf qp]
  have idx': "idx' = order_index b |` (- (order_id ` set q - order_id ` set q'))"
    using qp sh(2) by (simp add: queue_pass_def)
  have "book_inv b'"
    unfolding b' using assms(1) bk sh(1) idx' by (rule level_shrink_inv)
  moreover have "order_index b' = idx'" by (simp add: b')
  ultimately show ?thesis using bo ls bk qwf qp b' by blast
qed

lemma match_induct_inv [consumes 2, case_names stop pass]:
  assumes "match b taker = Inr (b', taker', trs)" "book_inv b"
    and stop: "\<And>b taker. book_inv b \<Longrightarrow> qty taker \<le> 0 \<or> match_body b taker = Break
          \<Longrightarrow> P b taker b taker []"
    and pass: "\<And>b taker b1 taker1 trs1 b' taker' trs2.
          book_inv b \<Longrightarrow> 0 < qty taker \<Longrightarrow> match_body b taker = Next b1 taker1 trs1 \<Longrightarrow>
          book_inv b1 \<Longrightarrow> match b1 taker1 = Inr (b', taker', trs2) \<Longrightarrow>
          P b1 taker1 b' taker' trs2 \<Longrightarrow> P b taker b' taker' (trs1 @ trs2)"
  shows "P b taker b' taker' trs"
  using assms(1,2)
proof (induction b taker arbitrary: b' taker' trs rule: match.induct)
  case (1 b taker)
  show ?case
  proof (cases "qty taker > 0")
    case False
    with "1.prems" stop [of b taker] show ?thesis
      by (auto simp: match.simps [of b taker])
  next
    case pos: True
    show ?thesis
    proof (cases "match_body b taker")
      case Break
      with pos "1.prems" stop [of b taker] show ?thesis
        by (auto simp: match.simps [of b taker])
    next
      case (Raise e)
      with pos "1.prems" show ?thesis by (simp add: match.simps [of b taker])
    next
      case (Next b1 taker1 trs1)
      with pos "1.prems" obtain trs2 where
        rec: "match b1 taker1 = Inr (b', taker', trs2)" and trs: "trs = trs1 @ trs2"
        by (auto simp: match.simps [of b taker] split: sum.splits)
      from match_body_pass [OF "1.prems"(2) Next pos] have inv1: "book_inv b1" by blast
      from "1.IH" [OF pos Next rec inv1] have "P b1 taker1 b' taker' trs2" .
      from pass [OF "1.prems"(2) pos Next inv1 rec this] trs show ?thesis by simp
    qed
  qed
qed

lemma match_total:
  assumes "book_inv b"
  shows "\<exists>b' taker' trs. match b taker = Inr (b', taker', trs)"
  using assms
proof (induction b taker rule: match.induct)
  case (1 b taker)
  show ?case
  proof (cases "qty taker > 0")
    case False
    then show ?thesis by (simp add: match.simps [of b taker])
  next
    case pos: True
    show ?thesis
    proof (cases "match_body b taker")
      case Break
      with pos show ?thesis by (simp add: match.simps [of b taker])
    next
      case (Raise e)
      with match_body_not_Raise [OF book_inv_side_wf [OF "1.prems"]] show ?thesis by blast
    next
      case (Next b1 taker1 trs1)
      from match_body_pass [OF "1.prems" Next pos] have inv1: "book_inv b1" by blast
      from "1.IH" [OF pos Next inv1] Next pos show ?thesis
        by (auto simp: match.simps [of b taker])
    qed
  qed
qed

lemma match_inv:
  assumes "match b taker = Inr (b', taker', trs)" "book_inv b"
  shows "book_inv b'"
  using assms by (induction rule: match_induct_inv) auto


lemma match_index_dom:
  assumes "match b taker = Inr (b', taker', trs)" "book_inv b"
  shows "dom (order_index b') \<subseteq> dom (order_index b)"
  using assms
proof (induction rule: match_induct_inv)
  case (stop b taker)
  show ?case by simp
next
  case (pass b taker b1 taker1 trs1 b' taker' trs2)
  from match_body_pass [OF pass(1,3,2)] obtain bp q n q' where
    "queue_pass bp q (order_index b) taker n q' (order_index b1) taker1 trs1" by blast
  then have "dom (order_index b1) \<subseteq> dom (order_index b)"
    by (auto simp: queue_pass_def restrict_map_def split: if_splits)
  with pass.IH show ?case by blast
qed

lemma resting_id_indexed:
  assumes "index_wf b" "book_for_side s b p = Some q" "x \<in> set q"
  shows "order_index b (order_id x) = Some (s, p, owner x)"
  using assms unfolding index_wf_def by blast

definition queue_at :: "Side \<Rightarrow> rat \<Rightarrow> LimitOrderBook \<Rightarrow> Order list" where
  "queue_at s p b = (case book_for_side s b p of None \<Rightarrow> [] | Some q \<Rightarrow> q)"

lemma add_resting_view:
  assumes "price ord = Some p"
  shows "\<exists>b'. add_resting b ord = Inr b' \<and>
     order_index b' = (order_index b)(order_id ord \<mapsto> (side ord, p, owner ord)) \<and>
     (\<forall>s' p'. book_for_side s' b' p' =
        (if s' = side ord \<and> p' = p then Some (queue_at (side ord) p b @ [ord])
         else book_for_side s' b p'))"
  using assms
  by (auto simp: add_resting_def Let_def queue_at_def)

lemma add_resting_inv:
  assumes inv: "book_inv b" and p: "price ord = Some p" and pos: "0 < qty ord"
    and lim: "order_type ord = LIMIT" and fresh: "order_id ord \<notin> dom (order_index b)"
    and clear: "side ord = BID \<longrightarrow> (\<forall>y \<in> set (levels_for_side ASK b). p < y)"
      "side ord = ASK \<longrightarrow> (\<forall>x \<in> set (levels_for_side BID b). x < p)"
    and res: "add_resting b ord = Inr b'"
  shows "book_inv b'"
proof -
  from add_resting_view [OF p, of b] res have
    ix: "order_index b' = (order_index b)(order_id ord \<mapsto> (side ord, p, owner ord))"
    and bk: "\<And>s' p'. book_for_side s' b' p' =
        (if s' = side ord \<and> p' = p then Some (queue_at (side ord) p b @ [ord])
         else book_for_side s' b p')"
    by auto
  from inv have lw: "levels_wf b" and ow: "orders_wf b" and iw: "index_wf b"
    by (simp_all add: book_inv_def)
  have not_in: "order_id x \<noteq> order_id ord" if "book_for_side s1 b p1 = Some q1" "x \<in> set q1"
    for s1 p1 q1 x
    using resting_id_indexed [OF iw that] fresh by auto
  have old_q: "queue_at (side ord) p b = [] \<or> queue_wf (side ord) p (queue_at (side ord) p b)"
    using ow by (auto simp: queue_at_def orders_wf_def split: option.splits)
  have old_ids: "order_id ord \<notin> order_id ` set (queue_at (side ord) p b)"
    using not_in by (auto simp: queue_at_def split: option.splits) metis
  have "levels_wf b'"
    using add_resting_levels_wf [OF lw res p] clear by blast
  moreover have "orders_wf b'"
  proof -
    have "queue_wf (side ord) p (queue_at (side ord) p b @ [ord])"
      using old_q old_ids p pos lim by (auto simp: queue_wf_def)
    then show ?thesis using ow by (auto simp: orders_wf_def bk split: if_splits)
  qed
  moreover have "index_wf b'"
    unfolding index_wf_def
  proof (intro allI iffI)
    fix i s1 p1 w
    assume a: "order_index b' i = Some (s1, p1, w)"
    show "\<exists>q x. book_for_side s1 b' p1 = Some q \<and> x \<in> set q \<and> order_id x = i \<and> owner x = w"
    proof (cases "i = order_id ord")
      case True
      with a ix have "s1 = side ord" "p1 = p" "w = owner ord" by auto
      then show ?thesis using True by (auto simp: bk)
    next
      case False
      with a ix have "order_index b i = Some (s1, p1, w)" by simp
      with iw obtain q x where "book_for_side s1 b p1 = Some q" "x \<in> set q" "order_id x = i"
        "owner x = w" unfolding index_wf_def by blast
      then show ?thesis by (auto simp: bk queue_at_def)
    qed
  next
    fix i s1 p1 w
    assume "\<exists>q x. book_for_side s1 b' p1 = Some q \<and> x \<in> set q \<and> order_id x = i \<and> owner x = w"
    then obtain q x where q: "book_for_side s1 b' p1 = Some q" "x \<in> set q" "order_id x = i"
      "owner x = w" by blast
    show "order_index b' i = Some (s1, p1, w)"
    proof (cases "x = ord \<and> s1 = side ord \<and> p1 = p")
      case True
      then show ?thesis using q ix by simp
    next
      case False
      with q have "\<exists>q0. book_for_side s1 b p1 = Some q0 \<and> x \<in> set q0"
        by (auto simp: bk queue_at_def split: if_splits option.splits)
      then obtain q0 where q0: "book_for_side s1 b p1 = Some q0" "x \<in> set q0" by blast
      from resting_id_indexed [OF iw q0] not_in [OF q0] q ix show ?thesis by simp
    qed
  qed
  ultimately show ?thesis by (simp add: book_inv_def)
qed


text \<open>The first half of \<open>add_order\<close>: matching, when the order is marketable.\<close>

definition match_phase ::
  "LimitOrderBook \<Rightarrow> Order \<Rightarrow> error + (LimitOrderBook \<times> Order \<times> Trade list)" where
  "match_phase b ord =
     (if order_type ord = MARKET \<or> is_marketable b ord then match b ord else Inr (b, ord, []))"

lemma add_order_phases:
  "add_order b ord =
     (case match_phase b ord of
        Inl e \<Rightarrow> Inl e
      | Inr (b1, ord1, trades) \<Rightarrow>
          if order_type ord1 = LIMIT \<and> qty ord1 > 0
          then (case add_resting b1 ord1 of
                  Inl e \<Rightarrow> Inl e
                | Inr b2 \<Rightarrow> Inr (b2, ord1, trades))
          else Inr (b1, ord1, trades))"
  by (simp add: add_order_def match_phase_def)

lemma match_phase_total:
  "book_inv b \<Longrightarrow> \<exists>b1 ord1 trs. match_phase b ord = Inr (b1, ord1, trs)"
  using match_total [of b ord] by (simp add: match_phase_def)

lemma match_phase_props:
  assumes "match_phase b ord = Inr (b1, ord1, trs)" "book_inv b"
  shows "book_inv b1" and "\<exists>k. ord1 = ord\<lparr>qty := k\<rparr>"
    and "dom (order_index b1) \<subseteq> dom (order_index b)"
    and "qty ord1 \<le> 0 \<or> price ord1 = None \<or> match_body b1 ord1 = Break"
proof -
  have wfo: "side_wf (opposite (side ord)) b" using assms(2) by (rule book_inv_side_wf)
  show "book_inv b1"
    using assms match_inv by (auto simp: match_phase_def split: if_splits)
  show "\<exists>k. ord1 = ord\<lparr>qty := k\<rparr>"
    using assms(1) match_levels [OF _ wfo]
    by (auto simp: match_phase_def split: if_splits intro: exI [of _ "qty ord"])
  show "dom (order_index b1) \<subseteq> dom (order_index b)"
    using assms match_index_dom by (auto simp: match_phase_def split: if_splits)
  show "qty ord1 \<le> 0 \<or> price ord1 = None \<or> match_body b1 ord1 = Break"
  proof (cases "order_type ord = MARKET \<or> is_marketable b ord")
    case True
    then have "match b ord = Inr (b1, ord1, trs)" using assms(1) by (simp add: match_phase_def)
    from match_levels [OF this wfo] show ?thesis by blast
  next
    case False
    then have "b1 = b" "ord1 = ord" "\<not> is_marketable b ord"
      using assms(1) by (auto simp: match_phase_def)
    then show ?thesis using not_marketable_Break [of b ord] by blast
  qed
qed

lemma add_order_Inr:
  assumes "add_order b ord = Inr (b', ord', trs)"
  shows "\<exists>b1. match_phase b ord = Inr (b1, ord', trs) \<and>
     (if order_type ord' = LIMIT \<and> 0 < qty ord' then add_resting b1 ord' = Inr b' else b' = b1)"
  using assms by (auto simp: add_order_phases split: sum.splits if_splits)

lemma rest_clear:
  assumes "book_inv b1" "match_body b1 ord1 = Break" "order_type ord1 = LIMIT"
    "price ord1 = Some p"
  shows "side ord1 = BID \<longrightarrow> (\<forall>y \<in> set (levels_for_side ASK b1). p < y)"
    and "side ord1 = ASK \<longrightarrow> (\<forall>x \<in> set (levels_for_side BID b1). x < p)"
  using Break_limit_clear [OF assms(2) book_inv_side_wf [OF assms(1)] assms(3,4)] by blast+

text \<open>
  \<open>add_order\<close> keeps the invariants, and raises nothing, for an order that passed the
  constructor's checks and whose id is not in the index.
\<close>

lemma add_order_inv:
  assumes "add_order b ord = Inr (b', ord', trs)" "book_inv b"
    "order_id ord \<notin> dom (order_index b)"
  shows "book_inv b'"
proof -
  from add_order_Inr [OF assms(1)] obtain b1 where
    mp: "match_phase b ord = Inr (b1, ord', trs)"
    and rest: "if order_type ord' = LIMIT \<and> 0 < qty ord' then add_resting b1 ord' = Inr b'
               else b' = b1"
    by blast
  note props = match_phase_props [OF mp assms(2)]
  show ?thesis
  proof (cases "order_type ord' = LIMIT \<and> 0 < qty ord'")
    case False
    with rest props(1) show ?thesis by simp
  next
    case True
    with rest have ar: "add_resting b1 ord' = Inr b'" by simp
    then obtain p where p: "price ord' = Some p"
      by (auto simp: add_resting_def split: option.splits)
    with props(4) True have brk: "match_body b1 ord' = Break" by auto
    have fresh: "order_id ord' \<notin> dom (order_index b1)"
      using props(2,3) assms(3) by auto
    from add_resting_inv [OF props(1) p _ _ fresh rest_clear [OF props(1) brk _ p] ar] True
    show ?thesis by simp
  qed
qed

lemma add_order_total:
  assumes "book_inv b" "order_type ord = LIMIT \<longrightarrow> price ord \<noteq> None"
  shows "\<exists>b' ord' trs. add_order b ord = Inr (b', ord', trs)"
proof -
  from match_phase_total [OF assms(1)] obtain b1 ord1 trs where
    mp: "match_phase b ord = Inr (b1, ord1, trs)" by blast
  from match_phase_props(2) [OF mp assms(1)] obtain k where "ord1 = ord\<lparr>qty := k\<rparr>" by blast
  with assms(2) have "order_type ord1 = LIMIT \<longrightarrow> price ord1 \<noteq> None" by simp
  then have "order_type ord1 = LIMIT \<Longrightarrow> \<exists>b2. add_resting b1 ord1 = Inr b2"
    using add_resting_view [of ord1 _ b1] by auto
  then show ?thesis using mp
    by (auto simp: add_order_phases)
qed

lemma del_first_set: "set (del_first i q) \<subseteq> set q"
  by (induction q) auto

lemma del_first_ids:
  "distinct (map order_id q) \<Longrightarrow>
   map order_id (del_first i q) = remove1 i (map order_id q)"
  by (induction q) auto

lemma del_first_filter:
  "distinct (map order_id q) \<Longrightarrow> del_first i q = filter (\<lambda>x. order_id x \<noteq> i) q"
proof (induction q)
  case Nil
  then show ?case by simp
next
  case (Cons x q)
  from Cons.prems have "order_id x \<notin> order_id ` set q" by simp
  then have "\<forall>y \<in> set q. order_id y \<noteq> order_id x" by (metis imageI)
  then have "order_id x = i \<Longrightarrow> filter (\<lambda>x. order_id x \<noteq> i) q = q"
    by (intro filter_True) simp
  with Cons show ?case by auto
qed

lemma del_first_shrunk:
  assumes "queue_wf s p q"
  shows "shrunk q (del_first i q)"
proof -
  have "\<exists>y \<in> set q. \<exists>k. x = y\<lparr>qty := k\<rparr>" if "x \<in> set (del_first i q)" for x
    using that del_first_set [of i q] by (intro bexI [of _ x] exI [of _ "qty x"]) auto
  moreover have "distinct (map order_id (del_first i q))"
    using assms by (simp add: queue_wf_def del_first_ids)
  moreover have "0 < qty x" if "x \<in> set (del_first i q)" for x
    using that del_first_set [of i q] assms by (auto simp: queue_wf_def)
  ultimately show ?thesis by (simp add: shrunk_def)
qed

text \<open>Under the invariants \<open>cancel\<close> takes one of two paths: unknown id, or found.\<close>

lemma cancel_inv_cases:
  assumes "book_inv b"
  obtains (unknown) "order_index b oid = None" "cancel b oid = (False, b)"
  | (found) s p w q where "order_index b oid = Some (s, p, w)"
      "book_for_side s b p = Some q" "oid \<in> order_id ` set q" "queue_wf s p q"
      "cancel b oid = (True, level_shrink s p (del_first oid q) ((order_index b)(oid := None)) b)"
proof (cases rule: cancel_cases [of b oid])
  case unknown
  then show ?thesis using that(1) by simp
next
  case stale
  then obtain s p w where ix: "order_index b oid = Some (s, p, w)" by auto
  with assms obtain q x where q: "book_for_side s b p = Some q" "x \<in> set q" "order_id x = oid"
    unfolding book_inv_def index_wf_def by blast
  then have "cancel b oid \<noteq> (False, b\<lparr>order_index := (order_index b)(oid := None)\<rparr>)"
    using ix by (auto simp: cancel_def Let_def)
  with stale show ?thesis by simp
next
  case (found s p w queue)
  moreover have "queue_wf s p queue"
    using assms found(2) by (simp add: book_inv_def orders_wf_def)
  ultimately show ?thesis using that(2) [of s p w queue]
    by (auto simp: level_shrink_def)
qed

lemma cancel_inv:
  assumes "book_inv b"
  shows "book_inv (snd (cancel b oid))"
proof (rule cancel_inv_cases [OF assms, of oid], goal_cases unknown found)
  case unknown
  then show ?thesis using assms by simp
next
  case (found s p w q)
  have ids: "order_id ` set q - order_id ` set (del_first oid q) = {oid}"
    using found(3,4) by (auto simp: queue_wf_def del_first_filter)
  have "(order_index b)(oid := None) =
      order_index b |` (- (order_id ` set q - order_id ` set (del_first oid q)))"
    unfolding ids by (auto simp: restrict_map_def fun_eq_iff)
  from level_shrink_inv [OF assms found(2) del_first_shrunk [OF found(4)] this] found(5)
  show ?thesis by simp
qed

lemma book_inv_empty: "book_inv empty_book"
  using levels_wf_empty
  by (simp add: book_inv_def orders_wf_def index_wf_def empty_book_def book_for_side_def)


lemma add_order_index_dom:
  assumes "add_order b ord = Inr (b', ord', trs)" "book_inv b"
  shows "dom (order_index b') \<subseteq> insert (order_id ord) (dom (order_index b))"
proof -
  from add_order_Inr [OF assms(1)] obtain b1 where
    mp: "match_phase b ord = Inr (b1, ord', trs)"
    and rest: "if order_type ord' = LIMIT \<and> 0 < qty ord' then add_resting b1 ord' = Inr b'
               else b' = b1"
    by blast
  note props = match_phase_props [OF mp assms(2)]
  show ?thesis
  proof (cases "order_type ord' = LIMIT \<and> 0 < qty ord'")
    case False
    with rest props(3) show ?thesis by auto
  next
    case True
    with rest have ar: "add_resting b1 ord' = Inr b'" by simp
    then obtain p where p: "price ord' = Some p"
      by (auto simp: add_resting_def split: option.splits)
    from add_resting_view [OF p, of b1] ar
    have "order_index b' = (order_index b1)(order_id ord' \<mapsto> (side ord', p, owner ord'))"
      by auto
    moreover have "order_id ord' = order_id ord" using props(2) by auto
    ultimately show ?thesis using props(3) by auto
  qed
qed

lemma add_orders_inv:
  assumes "add_orders b ords = Inr b'" "book_inv b" "distinct (map order_id ords)"
    "\<forall>ord \<in> set ords. order_id ord \<notin> dom (order_index b)"
  shows "book_inv b'"
  using assms
proof (induction ords arbitrary: b)
  case Nil
  then show ?case by simp
next
  case (Cons ord ords)
  from Cons.prems(1) obtain b1 ord1 trs where
    ao: "add_order b ord = Inr (b1, ord1, trs)" and rec: "add_orders b1 ords = Inr b'"
    by (auto split: sum.splits)
  have inv1: "book_inv b1"
    using add_order_inv [OF ao Cons.prems(2)] Cons.prems(4) by simp
  have "\<forall>x \<in> set ords. order_id x \<notin> dom (order_index b1)"
  proof
    fix x assume x: "x \<in> set ords"
    then have "order_id x \<in> order_id ` set ords" by (rule imageI)
    then have "order_id x \<noteq> order_id ord" using Cons.prems(3) by auto
    moreover have "order_id x \<notin> dom (order_index b)" using x Cons.prems(4) by simp
    ultimately show "order_id x \<notin> dom (order_index b1)"
      using add_order_index_dom [OF ao Cons.prems(2)] by blast
  qed
  from Cons.IH [OF rec inv1 _ this] Cons.prems(3) show ?case by simp
qed

lemma example_book_inv: "book_inv example_book"
  by (rule add_orders_inv [OF example_book_built book_inv_empty])
    (simp_all add: ord_A_def ord_B_def ord_C_def ord_D_def ord_E_def empty_book_def)

section \<open>Cancellation\<close>

definition is_resting :: "LimitOrderBook \<Rightarrow> string \<Rightarrow> bool" where
  "is_resting b oid \<longleftrightarrow>
     (\<exists>s p q ord. book_for_side s b p = Some q \<and> ord \<in> set q \<and> order_id ord = oid)"

lemma is_resting_index: "book_inv b \<Longrightarrow> is_resting b oid \<longleftrightarrow> oid \<in> dom (order_index b)"
  unfolding is_resting_def book_inv_def index_wf_def
  by (auto simp: dom_def) blast+

text \<open>
  Claim C5 (cancel). On a book that satisfies the invariants, \<open>cancel\<close> returns true
  exactly when the id is resting. An id that is not resting leaves the book as it was.
  A resting id is removed: its queue loses exactly that order, the level disappears from
  the dictionary and from the price list when the queue becomes empty, every other queue
  is untouched, the id leaves the index; the invariants still hold, and a second cancel
  of the same id returns false and changes nothing.
\<close>

theorem cancel_iff_resting:
  assumes "book_inv b"
  shows "(fst (cancel b oid) \<longleftrightarrow> is_resting b oid) \<and>
         (fst (cancel b oid) \<longleftrightarrow> oid \<in> open_orders b None) \<and>
         (\<not> is_resting b oid \<longrightarrow> snd (cancel b oid) = b) \<and>
         (is_resting b oid \<longrightarrow>
            (\<exists>s p q x. book_for_side s b p = Some q \<and> x \<in> set q \<and> order_id x = oid \<and>
               book_for_side s (snd (cancel b oid)) p =
                 (if remove1 x q = [] then None else Some (remove1 x q)) \<and>
               (\<forall>s' p'. (s', p') \<noteq> (s, p) \<longrightarrow>
                  book_for_side s' (snd (cancel b oid)) p' = book_for_side s' b p') \<and>
               (\<forall>s'. levels_for_side s' (snd (cancel b oid)) =
                  (if s' = s \<and> remove1 x q = [] then remove1 p (levels_for_side s b)
                   else levels_for_side s' b))) \<and>
            order_index (snd (cancel b oid)) = (order_index b)(oid := None) \<and>
            book_inv (snd (cancel b oid)) \<and>
            \<not> is_resting (snd (cancel b oid)) oid \<and>
            cancel (snd (cancel b oid)) oid = (False, snd (cancel b oid)))"
proof (rule cancel_inv_cases [OF assms, of oid], goal_cases unknown found)
  case unknown
  then have "\<not> is_resting b oid" using is_resting_index [OF assms] by auto
  with unknown show ?case by (auto simp: open_orders_def)
next
  case (found s p w q)
  let ?b' = "snd (cancel b oid)"
  have b': "?b' = level_shrink s p (del_first oid q) ((order_index b)(oid := None)) b"
    using found(5) by simp
  from found(3) obtain x where x: "x \<in> set q" "order_id x = oid" by auto
  have dq: "distinct (map order_id q)" using found(4) by (simp add: queue_wf_def)
  have "filter (\<lambda>y. order_id y \<noteq> oid) q = remove1 x q"
  proof -
    have "distinct q" using dq by (simp add: distinct_map)
    moreover have "\<forall>y \<in> set q. order_id y = oid \<longleftrightarrow> y = x"
      using dq x by (metis distinct_map inj_on_def)
    ultimately show ?thesis
      by (metis (mono_tags, lifting) distinct_remove1_removeAll filter_cong removeAll_filter_not_eq)
  qed
  then have df: "del_first oid q = remove1 x q" using del_first_filter [OF dq] by simp
  have res: "is_resting b oid" using found(2) x by (auto simp: is_resting_def)
  have inv': "book_inv ?b'" using cancel_inv [OF assms] .
  have ix': "order_index ?b' = (order_index b)(oid := None)" by (simp add: b')
  have nres: "\<not> is_resting ?b' oid" using is_resting_index [OF inv'] ix' by simp
  have again: "cancel ?b' oid = (False, ?b')"
    using ix' by (simp add: cancel_def)
  have lv: "levels_for_side s' ?b' =
      (if s' = s \<and> remove1 x q = [] then remove1 p (levels_for_side s b)
       else levels_for_side s' b)" for s'
    unfolding b' using level_shrink_levels [OF book_inv_side_wf [OF assms], of s p] found(2) df
    by simp
  have bk: "book_for_side s ?b' p = (if remove1 x q = [] then None else Some (remove1 x q))"
    and other: "\<forall>s' p'. (s', p') \<noteq> (s, p) \<longrightarrow> book_for_side s' ?b' p' = book_for_side s' b p'"
    unfolding b' by (auto simp: level_shrink_book df)
  have "\<exists>s p q x. book_for_side s b p = Some q \<and> x \<in> set q \<and> order_id x = oid \<and>
               book_for_side s ?b' p =
                 (if remove1 x q = [] then None else Some (remove1 x q)) \<and>
               (\<forall>s' p'. (s', p') \<noteq> (s, p) \<longrightarrow>
                  book_for_side s' ?b' p' = book_for_side s' b p') \<and>
               (\<forall>s'. levels_for_side s' ?b' =
                  (if s' = s \<and> remove1 x q = [] then remove1 p (levels_for_side s b)
                   else levels_for_side s' b))"
    using found(2) x bk other lv by blast
  moreover have "fst (cancel b oid)" using found(5) by simp
  moreover have "oid \<in> open_orders b None" using found(1) by (auto simp: open_orders_def)
  ultimately show ?case using res inv' ix' nres again by blast
qed

theorem cancel_iff_resting_witness:
  "book_inv example_book \<and> is_resting example_book ''ORD-3'' \<and>
   fst (cancel example_book ''ORD-3'') \<and>
   cancel (snd (cancel example_book ''ORD-3'')) ''ORD-3'' =
     (False, snd (cancel example_book ''ORD-3'')) \<and>
   \<not> is_resting example_book ''ORD-9'' \<and> cancel example_book ''ORD-9'' = (False, example_book)"
proof -
  have r: "is_resting example_book ''ORD-3''"
    unfolding is_resting_def
    by (rule exI [of _ ASK], rule exI [of _ 101], rule exI [of _ "[ord_C, ord_D]"],
        rule exI [of _ ord_C])
      (simp add: example_book_def book_for_side_def ord_C_def)
  have n: "\<not> is_resting example_book ''ORD-9''"
    using is_resting_index [OF example_book_inv, of "''ORD-9''"]
    by (simp add: example_book_def dom_def)
  from cancel_iff_resting [OF example_book_inv, of "''ORD-3''"] r
    cancel_iff_resting [OF example_book_inv, of "''ORD-9''"] n example_book_inv
  show ?thesis by (metis prod.collapse)
qed

section \<open>The trades of a call\<close>

text \<open>What one pass over the best level produces, read off the closed form.\<close>

lemma queue_pass_trades:
  assumes "queue_wf s bp q" "queue_pass bp q idx t n q' idx' t' trs" "0 < qty t"
  shows "trs \<noteq> []"
    and "length trs \<le> length q"
    and "\<forall>k < length trs. trade_price (trs ! k) = bp \<and> maker_order_id (trs ! k) = order_id (q ! k) \<and>
           maker_owner (trs ! k) = owner (q ! k) \<and>
           taker_order_id (trs ! k) = order_id t \<and> taker_owner (trs ! k) = owner t \<and>
           taker_side (trs ! k) = side t \<and>
           1 \<le> trade_qty (trs ! k) \<and> trade_qty (trs ! k) \<le> qty (q ! k)"
    and "\<forall>k. Suc k < length trs \<longrightarrow> trade_qty (trs ! k) = qty (q ! k)"
    and "qty t' = qty t - sum_list (map trade_qty trs)" and "0 \<le> qty t'"
    and "q' \<noteq> [] \<longrightarrow> qty t' = 0"
    and "q' = [] \<longrightarrow> length trs = length q"
    and "sum_list (map qty q') + sum_list (map trade_qty trs) = sum_list (map qty q)"
proof -
  from assms(1) have ne: "q \<noteq> []" and pos: "\<forall>x \<in> set q. 0 < qty x"
    by (auto simp: queue_wf_def)
  from assms(2) have n: "n \<le> length q"
    and t': "t' = t\<lparr>qty := qty t - sum_list (map trade_qty trs)\<rparr>" and nonneg: "0 \<le> qty t'"
    by (auto simp: queue_pass_def)
  show "qty t' = qty t - sum_list (map trade_qty trs)" using t' by (metis Order.select_convs(5) Order.surjective Order.update_convs(5))
  show "0 \<le> qty t'" by (rule nonneg)
  have full: "\<forall>k < n. trade_price (full_fills bp t (take n q) ! k) = bp \<and>
      maker_order_id (full_fills bp t (take n q) ! k) = order_id (q ! k) \<and>
      maker_owner (full_fills bp t (take n q) ! k) = owner (q ! k) \<and>
      taker_order_id (full_fills bp t (take n q) ! k) = order_id t \<and>
      taker_owner (full_fills bp t (take n q) ! k) = owner t \<and>
      taker_side (full_fills bp t (take n q) ! k) = side t \<and>
      trade_qty (full_fills bp t (take n q) ! k) = qty (q ! k)"
    using n by (simp add: full_fills_def)
  have lenf: "length (full_fills bp t (take n q)) = n" using n by (simp add: full_fills_def)
  have posq: "\<forall>k < length q. 0 < qty (q ! k)" using pos by simp
  have posn: "\<forall>k < n. 1 \<le> qty (q ! k)"
  proof (intro allI impI)
    fix k assume "k < n"
    with n have "k < length q" by simp
    with posq have "0 < qty (q ! k)" by blast
    then show "1 \<le> qty (q ! k)" by simp
  qed
  have split: "sum_list (map qty q) = sum_list (map qty (take n q)) + sum_list (map qty (drop n q))"
    by (metis append_take_drop_id map_append sum_list_append)
  from assms(2) consider
    (exact) "q' = drop n q" "trs = full_fills bp t (take n q)" "q' = [] \<or> qty t' = 0"
    | (part) r where "n < length q" "qty t' = 0" "0 < r" "r < qty (q ! n)"
        "q' = (q ! n)\<lparr>qty := qty (q ! n) - r\<rparr> # drop (Suc n) q"
        "trs = full_fills bp t (take n q) @ [make_trade bp r t (q ! n)]"
    by (auto simp: queue_pass_def)
  then have "trs \<noteq> [] \<and> length trs \<le> length q \<and>
      (\<forall>k < length trs. trade_price (trs ! k) = bp \<and> maker_order_id (trs ! k) = order_id (q ! k) \<and>
           maker_owner (trs ! k) = owner (q ! k) \<and>
           taker_order_id (trs ! k) = order_id t \<and> taker_owner (trs ! k) = owner t \<and>
           taker_side (trs ! k) = side t \<and>
           1 \<le> trade_qty (trs ! k) \<and> trade_qty (trs ! k) \<le> qty (q ! k)) \<and>
      (\<forall>k. Suc k < length trs \<longrightarrow> trade_qty (trs ! k) = qty (q ! k)) \<and>
      (q' \<noteq> [] \<longrightarrow> qty t' = 0) \<and> (q' = [] \<longrightarrow> length trs = length q) \<and>
      sum_list (map qty q') + sum_list (map trade_qty trs) = sum_list (map qty q)"
  proof cases
    case exact
    have "n \<noteq> 0"
    proof
      assume "n = 0"
      with exact have "q' = q" "trs = []" by simp_all
      with exact(3) ne t' assms(3) show False by simp
    qed
    then have "trs \<noteq> []" using exact lenf by auto
    then show ?thesis
      using exact lenf full n split posn by auto
  next
    case part
    have dn: "drop n q = q ! n # drop (Suc n) q" using part(1) by (simp add: Cons_nth_drop_Suc)
    have len: "length trs = Suc n" using part lenf by simp
    have nth: "\<And>k. k < n \<Longrightarrow> trs ! k = full_fills bp t (take n q) ! k"
      "trs ! n = make_trade bp r t (q ! n)"
      using part(6) lenf by (simp_all add: nth_append)
    have "sum_list (map qty q') + sum_list (map trade_qty trs) = sum_list (map qty q)"
      using part split dn by simp
    then show ?thesis
      using part len nth full posn by (auto simp: less_Suc_eq)
  qed
  then show "trs \<noteq> []" "length trs \<le> length q"
    "\<forall>k < length trs. trade_price (trs ! k) = bp \<and> maker_order_id (trs ! k) = order_id (q ! k) \<and>
           maker_owner (trs ! k) = owner (q ! k) \<and>
           taker_order_id (trs ! k) = order_id t \<and> taker_owner (trs ! k) = owner t \<and>
           taker_side (trs ! k) = side t \<and>
           1 \<le> trade_qty (trs ! k) \<and> trade_qty (trs ! k) \<le> qty (q ! k)"
    "\<forall>k. Suc k < length trs \<longrightarrow> trade_qty (trs ! k) = qty (q ! k)"
    "q' \<noteq> [] \<longrightarrow> qty t' = 0" "q' = [] \<longrightarrow> length trs = length q"
    "sum_list (map qty q') + sum_list (map trade_qty trs) = sum_list (map qty q)"
    by blast+
qed


lemma queue_pass_back:
  assumes "queue_pass bp q idx t n q' idx' t' trs" "x \<in> set q'"
  shows "\<exists>y \<in> set q. order_id x = order_id y \<and> owner x = owner y \<and> qty x \<le> qty y"
proof -
  from assms(1) consider (exact) "q' = drop n q"
    | (part) r where "n < length q" "0 < r"
        "q' = (q ! n)\<lparr>qty := qty (q ! n) - r\<rparr> # drop (Suc n) q"
    by (auto simp: queue_pass_def)
  then show ?thesis
  proof cases
    case exact
    with assms(2) have "x \<in> set q" by (auto dest: in_set_dropD)
    then show ?thesis by auto
  next
    case part
    show ?thesis
    proof (cases "x \<in> set (drop (Suc n) q)")
      case True
      then have "x \<in> set q" by (auto dest: in_set_dropD)
      then show ?thesis by auto
    next
      case False
      with assms(2) part have "x = (q ! n)\<lparr>qty := qty (q ! n) - r\<rparr>" by simp
      then show ?thesis using part(1,2) by (intro bexI [of _ "q ! n"]) auto
    qed
  qed
qed

text \<open>Everything the later proofs need to know about one pass of the outer loop.\<close>

definition pass_of ::
  "LimitOrderBook \<Rightarrow> Order \<Rightarrow> rat \<Rightarrow> Order list \<Rightarrow> Order list \<Rightarrow> LimitOrderBook \<Rightarrow> Order
     \<Rightarrow> Trade list \<Rightarrow> bool" where
  "pass_of b taker bp q q' b1 taker1 trs1 \<longleftrightarrow>
     best_opposing b taker = Some bp \<and> \<not> limit_stops taker bp \<and>
     book_for_side (opposite (side taker)) b bp = Some q \<and>
     queue_wf (opposite (side taker)) bp q \<and>
     b1 = level_shrink (opposite (side taker)) bp q' (order_index b1) b \<and> book_inv b1 \<and>
     (\<exists>k. taker1 = taker\<lparr>qty := k\<rparr>) \<and>
     trs1 \<noteq> [] \<and> length trs1 \<le> length q \<and>
     (\<forall>k < length trs1. trade_price (trs1 ! k) = bp \<and>
        maker_order_id (trs1 ! k) = order_id (q ! k) \<and> maker_owner (trs1 ! k) = owner (q ! k) \<and>
        taker_order_id (trs1 ! k) = order_id taker \<and> taker_owner (trs1 ! k) = owner taker \<and>
        taker_side (trs1 ! k) = side taker \<and>
        1 \<le> trade_qty (trs1 ! k) \<and> trade_qty (trs1 ! k) \<le> qty (q ! k)) \<and>
     (\<forall>k. Suc k < length trs1 \<longrightarrow> trade_qty (trs1 ! k) = qty (q ! k)) \<and>
     qty taker1 = qty taker - sum_list (map trade_qty trs1) \<and> 0 \<le> qty taker1 \<and>
     (q' \<noteq> [] \<longrightarrow> qty taker1 = 0) \<and> (q' = [] \<longrightarrow> length trs1 = length q) \<and>
     sum_list (map qty q') + sum_list (map trade_qty trs1) = sum_list (map qty q) \<and>
     (\<forall>x \<in> set q'. \<exists>y \<in> set q. order_id x = order_id y \<and> owner x = owner y \<and> qty x \<le> qty y)"

lemma pass_ofD:
  assumes "pass_of b taker bp q q' b1 taker1 trs1"
  shows "best_opposing b taker = Some bp" "\<not> limit_stops taker bp"
    "book_for_side (opposite (side taker)) b bp = Some q"
    "queue_wf (opposite (side taker)) bp q"
    "b1 = level_shrink (opposite (side taker)) bp q' (order_index b1) b" "book_inv b1"
    "\<exists>k. taker1 = taker\<lparr>qty := k\<rparr>"
    "trs1 \<noteq> []" "length trs1 \<le> length q"
    "\<forall>k < length trs1. trade_price (trs1 ! k) = bp \<and>
        maker_order_id (trs1 ! k) = order_id (q ! k) \<and> maker_owner (trs1 ! k) = owner (q ! k) \<and>
        taker_order_id (trs1 ! k) = order_id taker \<and> taker_owner (trs1 ! k) = owner taker \<and>
        taker_side (trs1 ! k) = side taker \<and>
        1 \<le> trade_qty (trs1 ! k) \<and> trade_qty (trs1 ! k) \<le> qty (q ! k)"
    "\<forall>k. Suc k < length trs1 \<longrightarrow> trade_qty (trs1 ! k) = qty (q ! k)"
    "qty taker1 = qty taker - sum_list (map trade_qty trs1)" "0 \<le> qty taker1"
    "q' \<noteq> [] \<longrightarrow> qty taker1 = 0" "q' = [] \<longrightarrow> length trs1 = length q"
    "sum_list (map qty q') + sum_list (map trade_qty trs1) = sum_list (map qty q)"
    "\<forall>x \<in> set q'. \<exists>y \<in> set q. order_id x = order_id y \<and> owner x = owner y \<and> qty x \<le> qty y"
  using assms unfolding pass_of_def by blast+

lemma match_pass_facts:
  assumes "book_inv b" "match_body b taker = Next b1 taker1 trs1" "0 < qty taker"
  shows "\<exists>bp q q'. pass_of b taker bp q q' b1 taker1 trs1"
proof -
  from match_body_pass [OF assms] obtain bp q n q' where
    f: "best_opposing b taker = Some bp" "\<not> limit_stops taker bp"
      "book_for_side (opposite (side taker)) b bp = Some q"
      "queue_wf (opposite (side taker)) bp q"
      "queue_pass bp q (order_index b) taker n q' (order_index b1) taker1 trs1"
      "b1 = level_shrink (opposite (side taker)) bp q' (order_index b1) b" "book_inv b1"
    by blast
  note tr = queue_pass_trades [OF f(4,5) assms(3)]
  have same: "\<exists>k. taker1 = taker\<lparr>qty := k\<rparr>" using f(5) by (auto simp: queue_pass_def)
  have older: "\<forall>x \<in> set q'. \<exists>y \<in> set q. order_id x = order_id y \<and> owner x = owner y \<and> qty x \<le> qty y"
    using queue_pass_back [OF f(5)] by blast
  have "pass_of b taker bp q q' b1 taker1 trs1"
    unfolding pass_of_def
    using f(1-4) f(6,7) same tr older by (intro conjI)
  then show ?thesis by blast
qed

lemma match_pass_side:
  assumes "book_inv b" "match_body b taker = Next b1 taker1 trs1" "0 < qty taker"
  shows "side taker1 = side taker" "order_id taker1 = order_id taker"
    "order_type taker1 = order_type taker" "price taker1 = price taker"
    "owner taker1 = owner taker"
proof -
  from match_pass_facts [OF assms] obtain bp q q' where
    "pass_of b taker bp q q' b1 taker1 trs1" by blast
  from pass_ofD(7) [OF this] obtain k where "taker1 = taker\<lparr>qty := k\<rparr>" by blast
  then show "side taker1 = side taker" "order_id taker1 = order_id taker"
    "order_type taker1 = order_type taker" "price taker1 = price taker"
    "owner taker1 = owner taker" by simp_all
qed

text \<open>An order resting on the maker side after a pass was resting there before it.\<close>

lemma match_pass_back:
  assumes "book_inv b" "match_body b taker = Next b1 taker1 trs1" "0 < qty taker"
    "book_for_side (opposite (side taker)) b1 p = Some q1" "x \<in> set q1"
  shows "\<exists>q0 y. book_for_side (opposite (side taker)) b p = Some q0 \<and> y \<in> set q0 \<and>
           order_id x = order_id y \<and> owner x = owner y \<and> qty x \<le> qty y"
proof -
  from match_pass_facts [OF assms(1-3)] obtain bp q q' where
    pf: "pass_of b taker bp q q' b1 taker1 trs1" by blast
  note f = pass_ofD [OF pf]
  have bk1: "book_for_side (opposite (side taker)) b1 p =
      (if p = bp then (if q' = [] then None else Some q')
       else book_for_side (opposite (side taker)) b p)"
    by (subst f(5)) (simp add: level_shrink_book)
  show ?thesis
  proof (cases "p = bp")
    case True
    with assms(4) bk1 have "q1 = q'" by (auto split: if_splits)
    with assms(5) f(3,17) True show ?thesis by blast
  next
    case False
    with assms(4) bk1 have "book_for_side (opposite (side taker)) b p = Some q1" by simp
    with assms(5) show ?thesis by blast
  qed
qed


definition trade_ok :: "LimitOrderBook \<Rightarrow> Order \<Rightarrow> Trade \<Rightarrow> bool" where
  "trade_ok b taker t \<longleftrightarrow>
     1 \<le> trade_qty t \<and>
     taker_order_id t = order_id taker \<and> taker_owner t = owner taker \<and>
     taker_side t = side taker \<and>
     (\<exists>q m. book_for_side (opposite (side taker)) b (trade_price t) = Some q \<and> m \<in> set q \<and>
        order_id m = maker_order_id t \<and> owner m = maker_owner t \<and> trade_qty t \<le> qty m) \<and>
     (\<forall>lp. order_type taker = LIMIT \<and> price taker = Some lp \<longrightarrow>
        (side taker = BID \<longrightarrow> trade_price t \<le> lp) \<and>
        (side taker = ASK \<longrightarrow> lp \<le> trade_price t))"

lemma match_trades_ok:
  assumes "match b taker = Inr (b', taker', trs)" "book_inv b"
  shows "\<forall>t \<in> set trs. trade_ok b taker t"
  using assms
proof (induction rule: match_induct_inv)
  case (stop b taker)
  show ?case by simp
next
  case (pass b taker b1 taker1 trs1 b' taker' trs2)
  from match_pass_facts [OF pass(1,3,2)] obtain bp q q' where
    pf: "pass_of b taker bp q q' b1 taker1 trs1" by blast
  note f = pass_ofD [OF pf]
  note sd = match_pass_side [OF pass(1,3,2)]
  have lim: "\<forall>lp. order_type taker = LIMIT \<and> price taker = Some lp \<longrightarrow>
        (side taker = BID \<longrightarrow> bp \<le> lp) \<and> (side taker = ASK \<longrightarrow> lp \<le> bp)"
    using f(2) by (cases "side taker") (auto simp: limit_stops_def)
  have first: "trade_ok b taker t" if "t \<in> set trs1" for t
  proof -
    from that obtain k where k: "k < length trs1" "t = trs1 ! k"
      by (auto simp: in_set_conv_nth)
    with f(9) have mem: "q ! k \<in> set q" by simp
    from f(10) k have tk: "trade_price t = bp" "maker_order_id t = order_id (q ! k)"
      "maker_owner t = owner (q ! k)" "taker_order_id t = order_id taker"
      "taker_owner t = owner taker" "taker_side t = side taker"
      "1 \<le> trade_qty t" "trade_qty t \<le> qty (q ! k)"
      by simp_all
    have "\<exists>q m. book_for_side (opposite (side taker)) b (trade_price t) = Some q \<and> m \<in> set q \<and>
        order_id m = maker_order_id t \<and> owner m = maker_owner t \<and> trade_qty t \<le> qty m"
      using f(3) mem tk by (intro exI [of _ q] exI [of _ "q ! k"]) simp
    then show ?thesis unfolding trade_ok_def using tk lim by simp
  qed
  have later: "trade_ok b taker t" if "t \<in> set trs2" for t
  proof -
    from that pass.IH have ok1: "trade_ok b1 taker1 t" by blast
    then have "\<exists>q1 m. book_for_side (opposite (side taker)) b1 (trade_price t) = Some q1 \<and>
      m \<in> set q1 \<and> order_id m = maker_order_id t \<and> owner m = maker_owner t \<and>
      trade_qty t \<le> qty m"
      unfolding trade_ok_def sd by simp
    then obtain q1 m where m: "book_for_side (opposite (side taker)) b1 (trade_price t) = Some q1"
      "m \<in> set q1" "order_id m = maker_order_id t" "owner m = maker_owner t"
      "trade_qty t \<le> qty m"
      by blast
    from match_pass_back [OF pass(1,3,2) m(1,2)] obtain q0 y where
      "book_for_side (opposite (side taker)) b (trade_price t) = Some q0" "y \<in> set q0"
      "order_id m = order_id y" "owner m = owner y" "qty m \<le> qty y" by blast
    with m have "\<exists>q m. book_for_side (opposite (side taker)) b (trade_price t) = Some q \<and>
        m \<in> set q \<and> order_id m = maker_order_id t \<and> owner m = maker_owner t \<and>
        trade_qty t \<le> qty m"
      by (intro exI [of _ q0] exI [of _ y]) auto
    moreover from ok1 have "1 \<le> trade_qty t" "taker_order_id t = order_id taker"
      "taker_owner t = owner taker" "taker_side t = side taker"
      "\<forall>lp. order_type taker = LIMIT \<and> price taker = Some lp \<longrightarrow>
        (side taker = BID \<longrightarrow> trade_price t \<le> lp) \<and>
        (side taker = ASK \<longrightarrow> lp \<le> trade_price t)"
      unfolding trade_ok_def sd by simp_all
    ultimately show ?thesis unfolding trade_ok_def by simp
  qed
  from first later show ?case by auto
qed

lemma match_qty:
  assumes "match b taker = Inr (b', taker', trs)" "book_inv b"
  shows "qty taker' = qty taker - sum_list (map trade_qty trs) \<and>
         (0 \<le> qty taker \<longrightarrow> 0 \<le> qty taker')"
  using assms
proof (induction rule: match_induct_inv)
  case (stop b taker)
  show ?case by simp
next
  case (pass b taker b1 taker1 trs1 b' taker' trs2)
  from match_pass_facts [OF pass(1,3,2)] obtain bp q q' where
    pf: "pass_of b taker bp q q' b1 taker1 trs1" by blast
  note f = pass_ofD [OF pf]
  from pass.IH f(12,13) show ?case by simp
qed








definition ord_F :: Order where
  "ord_F = \<lparr>order_id = ''ORD-6'', timestamp = 1, side = BID, order_type = LIMIT, qty = 5,
     price = Some 103, owner = ''FLOW''\<rparr>"

definition trade_F1 :: Trade where
  "trade_F1 = \<lparr>trade_timestamp = 1, trade_price = 101, trade_qty = 4,
     taker_order_id = ''ORD-6'', maker_order_id = ''ORD-3'', taker_owner = ''FLOW'',
     maker_owner = ''FLOW'', taker_side = BID\<rparr>"

definition trade_F2 :: Trade where
  "trade_F2 = \<lparr>trade_timestamp = 1, trade_price = 101, trade_qty = 1,
     taker_order_id = ''ORD-6'', maker_order_id = ''ORD-4'', taker_owner = ''FLOW'',
     maker_owner = ''MM'', taker_side = BID\<rparr>"

lemmas example_defs = ord_A_def ord_B_def ord_C_def ord_D_def ord_E_def example_book_def

lemma example_crossing_limit:
  "\<exists>b' ord'. add_order example_book ord_F = Inr (b', ord', [trade_F1, trade_F2])"
  by (simp add: book_eval example_defs ord_F_def trade_F1_def trade_F2_def)

section \<open>Market orders\<close>

text \<open>\<open>total_depth\<close>: the resting quantity of one side, summed over its levels.\<close>

definition level_qty :: "Side \<Rightarrow> LimitOrderBook \<Rightarrow> rat \<Rightarrow> int" where
  "level_qty s b p = sum_list (map qty (queue_at s p b))"

definition total_depth :: "Side \<Rightarrow> LimitOrderBook \<Rightarrow> int" where
  "total_depth s b = sum_list (map (level_qty s b) (levels_for_side s b))"

lemma sum_list_remove1_int:
  fixes f :: "rat \<Rightarrow> int"
  assumes "x \<in> set xs"
  shows "sum_list (map f xs) = f x + sum_list (map f (remove1 x xs))"
  using assms by (induction xs) auto

lemma level_shrink_depth:
  assumes "book_inv b" "book_for_side s b p = Some q"
  shows "total_depth s (level_shrink s p q' idx' b) =
           total_depth s b - sum_list (map qty q) + sum_list (map qty q')"
proof -
  have wf: "side_wf s b" using assms(1) by (rule book_inv_side_wf)
  then have dist: "distinct (levels_for_side s b)" and mem: "p \<in> set (levels_for_side s b)"
    using assms(2) by (auto simp: side_wf_def)
  let ?b1 = "level_shrink s p q' idx' b"
  have lv: "levels_for_side s ?b1 =
      (if q' = [] then remove1 p (levels_for_side s b) else levels_for_side s b)"
    using level_shrink_levels [OF wf, of p s q' idx'] assms(2) by simp
  have lq: "level_qty s ?b1 x = (if x = p then sum_list (map qty q') else level_qty s b x)" for x
    by (simp add: level_qty_def queue_at_def level_shrink_book)
  have lqp: "level_qty s b p = sum_list (map qty q)"
    using assms(2) by (simp add: level_qty_def queue_at_def)
  have others: "map (level_qty s ?b1) (remove1 p (levels_for_side s b)) =
      map (level_qty s b) (remove1 p (levels_for_side s b))"
    using dist by (intro map_cong) (auto simp: lq)
  then have so: "sum_list (map (level_qty s ?b1) (remove1 p (levels_for_side s b))) =
      sum_list (map (level_qty s b) (remove1 p (levels_for_side s b)))"
    by (rule arg_cong)
  have old: "total_depth s b =
      sum_list (map qty q) + sum_list (map (level_qty s b) (remove1 p (levels_for_side s b)))"
    unfolding total_depth_def using sum_list_remove1_int [OF mem, of "level_qty s b"] lqp by simp
  show ?thesis
  proof (cases "q' = []")
    case True
    then show ?thesis using lv so old by (simp add: total_depth_def)
  next
    case False
    then have "total_depth s ?b1 =
        level_qty s ?b1 p + sum_list (map (level_qty s ?b1) (remove1 p (levels_for_side s b)))"
      unfolding total_depth_def using lv sum_list_remove1_int [OF mem, of "level_qty s ?b1"]
      by simp
    then show ?thesis using so old lq by simp
  qed
qed

lemma match_conservation:
  assumes "match b taker = Inr (b', taker', trs)" "book_inv b"
  shows "total_depth (opposite (side taker)) b' + sum_list (map trade_qty trs) =
           total_depth (opposite (side taker)) b"
  using assms
proof (induction rule: match_induct_inv)
  case (stop b taker)
  show ?case by simp
next
  case (pass b taker b1 taker1 trs1 b' taker' trs2)
  from match_pass_facts [OF pass(1,3,2)] obtain bp q q' where
    pf: "pass_of b taker bp q q' b1 taker1 trs1" by blast
  note f = pass_ofD [OF pf]
  note sd = match_pass_side [OF pass(1,3,2)]
  have "total_depth (opposite (side taker)) b1 =
      total_depth (opposite (side taker)) b - sum_list (map qty q) + sum_list (map qty q')"
    by (subst f(5)) (rule level_shrink_depth [OF pass(1) f(3)])
  with pass.IH f(16) sd show ?case by simp
qed

lemma match_market_end:
  assumes "match b taker = Inr (b', taker', trs)" "book_inv b" "order_type taker = MARKET"
    "0 < qty taker'"
  shows "levels_for_side (opposite (side taker)) b' = []"
proof -
  have wf: "side_wf (opposite (side taker)) b" using assms(2) by (rule book_inv_side_wf)
  from match_levels [OF assms(1) wf] obtain k where
    wf': "side_wf (opposite (side taker)) b'" and same: "taker' = taker\<lparr>qty := k\<rparr>"
    and stop: "qty taker' \<le> 0 \<or> match_body b' taker' = Break"
    by blast
  from stop assms(4) have "match_body b' taker' = Break" by simp
  moreover have "\<not> limit_stops taker' bp" for bp
    using same assms(3) by (simp add: limit_stops_def)
  ultimately have none: "best_opposing b' taker' = None"
    by (auto simp: match_body_Break split: option.splits)
  show ?thesis
  proof (cases "side taker")
    case BID
    with none same wf' best_ask_least [of b'] show ?thesis by (simp add: best_opposing_def)
  next
    case ASK
    with none same wf' best_bid_greatest [of b'] show ?thesis by (simp add: best_opposing_def)
  qed
qed

lemma total_depth_nonneg:
  assumes "book_inv b"
  shows "0 \<le> total_depth s b"
proof -
  have "0 \<le> level_qty s b p" for p
    using assms unfolding level_qty_def queue_at_def book_inv_def orders_wf_def queue_wf_def
    by (auto split: option.splits intro!: sum_list_nonneg) fastforce
  then show ?thesis unfolding total_depth_def by (intro sum_list_nonneg) auto
qed

lemma add_order_market:
  assumes "order_type ord = MARKET" "book_inv b"
  shows "add_order b ord = Inr (b', ord', trs) \<longleftrightarrow> match b ord = Inr (b', ord', trs)"
proof -
  have wf: "side_wf (opposite (side ord)) b" using assms(2) by (rule book_inv_side_wf)
  have "order_type o1 = MARKET" if "match b ord = Inr (b1, o1, t1)" for b1 o1 t1
    using match_levels [OF that wf] assms(1) by auto
  then show ?thesis
    using assms(1) by (auto simp: add_order_def split: sum.splits)
qed

text \<open>
  Claim C6. On a book that satisfies the invariants a MARKET order raises nothing and
  never rests: its own side of the book is untouched and no id enters the index, so its
  id is not among the open orders (when it was not there before). When its quantity
  exceeds the total resting quantity of the opposing side, the trades sum to exactly that
  depth, the opposing side is left empty, and the unfilled remainder stays on the order,
  which is dropped.
\<close>

theorem market_order_never_rests:
  assumes "book_inv b" "order_type ord = MARKET"
  shows "\<exists>b' ord' trs. add_order b ord = Inr (b', ord', trs) \<and>
     book_for_side (side ord) b' = book_for_side (side ord) b \<and>
     levels_for_side (side ord) b' = levels_for_side (side ord) b \<and>
     dom (order_index b') \<subseteq> dom (order_index b) \<and>
     (order_id ord \<notin> dom (order_index b) \<longrightarrow>
        order_id ord \<notin> open_orders b' None \<and> \<not> is_resting b' (order_id ord)) \<and>
     (total_depth (opposite (side ord)) b < qty ord \<longrightarrow>
        sum_list (map trade_qty trs) = total_depth (opposite (side ord)) b \<and>
        qty ord' = qty ord - total_depth (opposite (side ord)) b \<and>
        levels_for_side (opposite (side ord)) b' = [] \<and>
        total_depth (opposite (side ord)) b' = 0)"
proof -
  from match_total [OF assms(1), of ord] obtain b' ord' trs where
    m: "match b ord = Inr (b', ord', trs)" by blast
  then have ao: "add_order b ord = Inr (b', ord', trs)"
    using add_order_market [OF assms(2,1)] by simp
  have wf: "side_wf (opposite (side ord)) b" using assms(1) by (rule book_inv_side_wf)
  note lv = match_levels [OF m wf]
  have dom: "dom (order_index b') \<subseteq> dom (order_index b)" by (rule match_index_dom [OF m assms(1)])
  have inv': "book_inv b'" by (rule match_inv [OF m assms(1)])
  have fresh: "order_id ord \<notin> open_orders b' None \<and> \<not> is_resting b' (order_id ord)"
    if "order_id ord \<notin> dom (order_index b)"
    using that dom is_resting_index [OF inv'] by (auto simp: open_orders_def)
  have deep: "sum_list (map trade_qty trs) = total_depth (opposite (side ord)) b \<and>
        qty ord' = qty ord - total_depth (opposite (side ord)) b \<and>
        levels_for_side (opposite (side ord)) b' = [] \<and>
        total_depth (opposite (side ord)) b' = 0"
    if big: "total_depth (opposite (side ord)) b < qty ord"
  proof -
    note cons = match_conservation [OF m assms(1)]
    note q = match_qty [OF m assms(1)]
    have "0 \<le> total_depth (opposite (side ord)) b'" by (rule total_depth_nonneg [OF inv'])
    with cons q big have "0 < qty ord'" by simp
    from match_market_end [OF m assms(1,2) this]
    have e: "levels_for_side (opposite (side ord)) b' = []" .
    then have z: "total_depth (opposite (side ord)) b' = 0" by (simp add: total_depth_def)
    with cons q e show ?thesis by simp
  qed
  from ao lv dom fresh deep show ?thesis by blast
qed


definition ord_G :: Order where
  "ord_G = \<lparr>order_id = ''ORD-7'', timestamp = 2, side = BID, order_type = MARKET, qty = 20,
     price = None, owner = ''FLOW''\<rparr>"

lemma example_ask_depth: "total_depth ASK example_book = 13"
  by (simp add: total_depth_def level_qty_def queue_at_def levels_for_side_def book_for_side_def
      example_defs)

theorem market_order_never_rests_witness:
  "book_inv example_book \<and> order_type ord_G = MARKET \<and>
   total_depth (opposite (side ord_G)) example_book = 13 \<and> 13 < qty ord_G \<and>
   (\<exists>b' ord' trs. add_order example_book ord_G = Inr (b', ord', trs) \<and>
      sum_list (map trade_qty trs) = 13 \<and> qty ord' = 7 \<and>
      order_id ord_G \<notin> open_orders b' None)"
proof -
  have m: "order_type ord_G = MARKET" by (simp add: ord_G_def)
  have d: "total_depth (opposite (side ord_G)) example_book = 13"
    using example_ask_depth by (simp add: ord_G_def)
  have q: "qty ord_G = 20" by (simp add: ord_G_def)
  have fresh: "order_id ord_G \<notin> dom (order_index example_book)"
    by (simp add: ord_G_def example_book_def)
  from market_order_never_rests [OF example_book_inv m] obtain b' ord' trs where
    r: "add_order example_book ord_G = Inr (b', ord', trs)"
      "order_id ord_G \<notin> dom (order_index example_book) \<longrightarrow>
        order_id ord_G \<notin> open_orders b' None \<and> \<not> is_resting b' (order_id ord_G)"
      "total_depth (opposite (side ord_G)) example_book < qty ord_G \<longrightarrow>
        sum_list (map trade_qty trs) = total_depth (opposite (side ord_G)) example_book \<and>
        qty ord' = qty ord_G - total_depth (opposite (side ord_G)) example_book \<and>
        levels_for_side (opposite (side ord_G)) b' = [] \<and>
        total_depth (opposite (side ord_G)) b' = 0"
    by blast
  from r(2) fresh have "order_id ord_G \<notin> open_orders b' None" by simp
  moreover from r(3) d q have "sum_list (map trade_qty trs) = 13" "qty ord' = 7" by simp_all
  ultimately have "\<exists>b' ord' trs. add_order example_book ord_G = Inr (b', ord', trs) \<and>
      sum_list (map trade_qty trs) = 13 \<and> qty ord' = 7 \<and>
      order_id ord_G \<notin> open_orders b' None"
    using r(1) by blast
  then show ?thesis using example_book_inv m d q by simp
qed

section \<open>Trades follow the queue\<close>

lemma resting_ids_level:
  assumes "book_inv b" "book_for_side s b p = Some q" "x \<in> set q"
    "book_for_side s' b p' = Some q'" "y \<in> set q'" "order_id x = order_id y"
  shows "s = s' \<and> p = p'"
proof -
  have iw: "index_wf b" using assms(1) by (simp add: book_inv_def)
  from resting_id_indexed [OF iw assms(2,3)] resting_id_indexed [OF iw assms(4,5)] assms(6)
  show ?thesis by simp
qed

lemma queue_ids_nth:
  assumes "queue_wf s p q" "i < length q" "j < length q" "order_id (q ! i) = order_id (q ! j)"
  shows "i = j"
proof -
  from assms(1) have "distinct (map order_id q)" by (simp add: queue_wf_def)
  moreover have "map order_id q ! i = map order_id q ! j" using assms(2-4) by simp
  ultimately show ?thesis
    using assms(2,3) nth_eq_iff_index_eq [of "map order_id q" i j] by simp
qed

definition fifo_ok :: "LimitOrderBook \<Rightarrow> Side \<Rightarrow> Trade list \<Rightarrow> bool" where
  "fifo_ok b ms trs \<longleftrightarrow>
     (\<forall>p q i j. book_for_side ms b p = Some q \<and> i < j \<and> j < length q \<and>
        (\<exists>l < length trs. maker_order_id (trs ! l) = order_id (q ! j)) \<longrightarrow>
        (\<exists>k < length trs. maker_order_id (trs ! k) = order_id (q ! i) \<and>
           trade_qty (trs ! k) = qty (q ! i) \<and> trade_price (trs ! k) = p \<and>
           (\<forall>l < length trs. maker_order_id (trs ! l) = order_id (q ! j) \<longrightarrow> k < l)))"

lemma match_fifo:
  assumes "match b taker = Inr (b', taker', trs)" "book_inv b"
  shows "fifo_ok b (opposite (side taker)) trs"
  using assms
proof (induction rule: match_induct_inv)
  case (stop b taker)
  show ?case by (simp add: fifo_ok_def)
next
  case (pass b taker b1 taker1 trs1 b' taker' trs2)
  let ?ms = "opposite (side taker)"
  from match_pass_facts [OF pass(1,3,2)] obtain bp qb q' where
    pf: "pass_of b taker bp qb q' b1 taker1 trs1" by blast
  note f = pass_ofD [OF pf]
  note sd = match_pass_side [OF pass(1,3,2)]
  have ih: "fifo_ok b1 ?ms trs2" using pass.IH sd by simp
  have bk1: "book_for_side ?ms b1 p =
      (if p = bp then (if q' = [] then None else Some q') else book_for_side ?ms b p)" for p
    by (subst f(5)) (simp add: level_shrink_book)
  have spent: "trs2 = []" if "q' \<noteq> []"
  proof -
    from that f(14) have "qty taker1 = 0" by simp
    with pass(5) show ?thesis by (simp add: match.simps [of b1 taker1])
  qed
  have mk1: "maker_order_id (trs1 ! l) = order_id (qb ! l)" "l < length qb"
    "trade_price (trs1 ! l) = bp" if "l < length trs1" for l
    using that f(9,10) by auto
  show ?case
    unfolding fifo_ok_def
  proof (intro allI impI, elim conjE exE)
    fix p q i j l
    assume q: "book_for_side ?ms b p = Some q" and ij: "i < j" and j: "j < length q"
      and l: "l < length (trs1 @ trs2)"
      and ml: "maker_order_id ((trs1 @ trs2) ! l) = order_id (q ! j)"
    show "\<exists>k < length (trs1 @ trs2). maker_order_id ((trs1 @ trs2) ! k) = order_id (q ! i) \<and>
           trade_qty ((trs1 @ trs2) ! k) = qty (q ! i) \<and> trade_price ((trs1 @ trs2) ! k) = p \<and>
           (\<forall>l < length (trs1 @ trs2).
              maker_order_id ((trs1 @ trs2) ! l) = order_id (q ! j) \<longrightarrow> k < l)"
    proof (cases "p = bp")
      case True
      with q f(3) have qq: "q = qb" by simp
      have only: "l' = j" if "l' < length trs1" "maker_order_id (trs1 ! l') = order_id (q ! j)" for l'
        using queue_ids_nth [OF f(4), of l' j] mk1 [OF that(1)] that(2) j qq by simp
      have j1: "j < length trs1"
      proof (cases "l < length trs1")
        case True
        with ml have "maker_order_id (trs1 ! l) = order_id (q ! j)" by (simp add: nth_append)
        from only [OF True this] True show ?thesis by simp
      next
        case False
        with l have "trs2 \<noteq> []" by auto
        with spent have "q' = []" by blast
        with f(15) j qq show ?thesis by simp
      qed
      with ij have i1: "i < length trs1" "Suc i < length trs1" by simp_all
      have "maker_order_id ((trs1 @ trs2) ! i) = order_id (q ! i)"
        using mk1(1) [OF i1(1)] i1(1) qq by (simp add: nth_append)
      moreover have "trade_qty ((trs1 @ trs2) ! i) = qty (q ! i)"
        using f(11) i1 qq by (simp add: nth_append)
      moreover have "trade_price ((trs1 @ trs2) ! i) = p"
        using mk1(3) [OF i1(1)] i1(1) True by (simp add: nth_append)
      moreover have "i < l'" if "l' < length (trs1 @ trs2)"
        "maker_order_id ((trs1 @ trs2) ! l') = order_id (q ! j)" for l'
      proof (cases "l' < length trs1")
        case True
        with that(2) have "maker_order_id (trs1 ! l') = order_id (q ! j)"
          by (simp add: nth_append)
        from only [OF True this] ij show ?thesis by simp
      next
        case False
        with i1(1) show ?thesis by simp
      qed
      ultimately show ?thesis using i1(1) by (intro exI [of _ i]) auto
    next
      case False
      with q bk1 have q1: "book_for_side ?ms b1 p = Some q" by simp
      have late: "length trs1 \<le> l'" if "l' < length (trs1 @ trs2)"
        "maker_order_id ((trs1 @ trs2) ! l') = order_id (q ! j)" for l'
      proof (rule ccontr)
        assume "\<not> length trs1 \<le> l'"
        then have l1: "l' < length trs1" by simp
        with that(2) have "order_id (qb ! l') = order_id (q ! j)"
          using mk1(1) [OF l1] by (simp add: nth_append)
        moreover have "qb ! l' \<in> set qb" using mk1(2) [OF l1] by simp
        moreover have "q ! j \<in> set q" using j by simp
        ultimately show False
          using resting_ids_level [OF pass(1) f(3) _ q] False by blast
      qed
      from late [OF l ml] l ml have "l - length trs1 < length trs2"
        "maker_order_id (trs2 ! (l - length trs1)) = order_id (q ! j)"
        by (simp_all add: nth_append)
      with ih q1 ij j obtain k where k: "k < length trs2"
        "maker_order_id (trs2 ! k) = order_id (q ! i)" "trade_qty (trs2 ! k) = qty (q ! i)"
        "trade_price (trs2 ! k) = p"
        "\<forall>l < length trs2. maker_order_id (trs2 ! l) = order_id (q ! j) \<longrightarrow> k < l"
        unfolding fifo_ok_def by blast
      have "length trs1 + k < l'" if "l' < length (trs1 @ trs2)"
        "maker_order_id ((trs1 @ trs2) ! l') = order_id (q ! j)" for l'
      proof -
        from late [OF that] that have "l' - length trs1 < length trs2"
          "maker_order_id (trs2 ! (l' - length trs1)) = order_id (q ! j)"
          by (simp_all add: nth_append)
        with k(5) have "k < l' - length trs1" by blast
        then show ?thesis by simp
      qed
      then show ?thesis using k(1-4)
        by (intro exI [of _ "length trs1 + k"]) (auto simp: nth_append)
    qed
  qed
qed


lemma add_order_rests_at_tail:
  assumes "book_inv b" "add_order b ord = Inr (b', ord', trs)"
    "order_type ord' = LIMIT" "0 < qty ord'"
  shows "\<exists>p. price ord = Some p \<and>
           book_for_side (side ord) b' p = Some (queue_at (side ord) p b @ [ord'])"
proof -
  from add_order_Inr [OF assms(2)] assms(3,4) obtain b1 where
    mp: "match_phase b ord = Inr (b1, ord', trs)" and ar: "add_resting b1 ord' = Inr b'"
    by auto
  from match_phase_props(2) [OF mp assms(1)] obtain k where same: "ord' = ord\<lparr>qty := k\<rparr>"
    by blast
  from ar obtain p where p: "price ord' = Some p"
    by (auto simp: add_resting_def split: option.splits)
  have own: "book_for_side (side ord) b1 = book_for_side (side ord) b"
  proof (cases "order_type ord = MARKET \<or> is_marketable b ord")
    case True
    then have "match b ord = Inr (b1, ord', trs)" using mp by (simp add: match_phase_def)
    from match_levels [OF this book_inv_side_wf [OF assms(1)]] show ?thesis by simp
  next
    case False
    then show ?thesis using mp by (simp add: match_phase_def)
  qed
  from add_resting_view [OF p, of b1] ar
  have "book_for_side (side ord') b' p = Some (queue_at (side ord') p b1 @ [ord'])" by auto
  then show ?thesis using same p own by (auto simp: queue_at_def)
qed

section \<open>Fill accounting on the maker side\<close>

text \<open>
  The quantity that a list of trades takes from the resting order with a given id, and
  a queue after these fills: every order keeps its place, loses what was filled, and
  leaves once nothing is left of it.
\<close>

definition filled_qty :: "Trade list \<Rightarrow> string \<Rightarrow> int" where
  "filled_qty trs i = sum_list (map trade_qty (filter (\<lambda>t. maker_order_id t = i) trs))"

definition after_fills :: "Trade list \<Rightarrow> Order list \<Rightarrow> Order list" where
  "after_fills trs q =
     map (\<lambda>m. m\<lparr>qty := qty m - filled_qty trs (order_id m)\<rparr>)
       (filter (\<lambda>m. filled_qty trs (order_id m) < qty m) q)"

lemma filled_qty_simps [simp]:
  "filled_qty [] i = 0"
  "filled_qty (t # trs) i = (if maker_order_id t = i then trade_qty t else 0) + filled_qty trs i"
  "filled_qty (trs1 @ trs2) i = filled_qty trs1 i + filled_qty trs2 i"
  by (simp_all add: filled_qty_def)

lemma filled_qty_nonneg: "\<forall>t \<in> set trs. 0 \<le> trade_qty t \<Longrightarrow> 0 \<le> filled_qty trs i"
  by (induction trs) auto

lemma filled_qty_absent: "i \<notin> maker_order_id ` set trs \<Longrightarrow> filled_qty trs i = 0"
  by (induction trs) auto

lemma filled_qty_distinct:
  "distinct (map maker_order_id trs) \<Longrightarrow> t \<in> set trs \<Longrightarrow>
     filled_qty trs (maker_order_id t) = trade_qty t"
  by (induction trs) (auto simp: filled_qty_absent)

lemma filled_qty_full_fills_absent:
  "i \<notin> order_id ` set ms \<Longrightarrow> filled_qty (full_fills bp t ms) i = 0"
  by (induction ms) auto

lemma filled_qty_full_fills:
  assumes "distinct (map order_id ms)"
  shows "m \<in> set ms \<Longrightarrow> filled_qty (full_fills bp t ms) (order_id m) = qty m"
    and "i \<notin> order_id ` set ms \<Longrightarrow> filled_qty (full_fills bp t ms) i = 0"
  using assms by (induction ms) (auto simp: filled_qty_full_fills_absent)

lemma after_fills_simps [simp]:
  "after_fills trs [] = []"
  "after_fills trs (xs @ ys) = after_fills trs xs @ after_fills trs ys"
  by (simp_all add: after_fills_def)

lemma after_fills_Cons:
  "after_fills trs (m # q) =
     (if filled_qty trs (order_id m) < qty m
      then m\<lparr>qty := qty m - filled_qty trs (order_id m)\<rparr> # after_fills trs q
      else after_fills trs q)"
  by (simp add: after_fills_def)

lemma after_fills_gone:
  "\<forall>m \<in> set q. qty m \<le> filled_qty trs (order_id m) \<Longrightarrow> after_fills trs q = []"
  by (induction q) (auto simp: after_fills_Cons)

lemma after_fills_untouched:
  "\<forall>m \<in> set q. filled_qty trs (order_id m) = 0 \<and> 0 < qty m \<Longrightarrow> after_fills trs q = q"
  by (induction q) (auto simp: after_fills_Cons)

lemma after_fills_append:
  assumes "\<forall>t \<in> set trs2. 0 \<le> trade_qty t"
  shows "after_fills (trs1 @ trs2) q = after_fills trs2 (after_fills trs1 q)"
proof (induction q)
  case Nil
  show ?case by simp
next
  case (Cons m q)
  have "0 \<le> filled_qty trs2 (order_id m)" using assms by (rule filled_qty_nonneg)
  then show ?case
    using Cons by (auto simp: after_fills_Cons algebra_simps)
qed

lemma after_fills_ids: "set (map order_id (after_fills trs q)) \<subseteq> set (map order_id q)"
  by (auto simp: after_fills_def)

text \<open>One pass of the inner loop leaves the queue as the fills of its trades leave it.\<close>

lemma queue_pass_after_fills:
  assumes "queue_wf s bp q" "queue_pass bp q idx t n q' idx' t' trs"
  shows "q' = after_fills trs q" and "distinct (map maker_order_id trs)"
    and "maker_order_id ` set trs \<subseteq> order_id ` set q"
proof -
  from assms(1) have dist: "distinct (map order_id q)" and pos: "\<forall>m \<in> set q. 0 < qty m"
    by (auto simp: queue_wf_def)
  from assms(2) have n: "n \<le> length q" by (simp add: queue_pass_def)
  have q: "q = take n q @ drop n q" by simp
  have d1: "distinct (map order_id (take n q))" using dist by (simp add: distinct_take take_map [symmetric])
  have disj: "order_id x \<noteq> order_id y" if "x \<in> set (take n q)" "y \<in> set (drop n q)" for x y
  proof -
    from dist have "distinct (map order_id (take n q) @ map order_id (drop n q))"
      by (metis append_take_drop_id map_append)
    with that show ?thesis by auto
  qed
  have ff: "map maker_order_id (full_fills bp t ms) = map order_id ms" for ms
    by (simp add: full_fills_def)
  from assms(2) consider
    (exact) "q' = drop n q" "trs = full_fills bp t (take n q)"
    | (part) r where "n < length q" "0 < r" "r < qty (q ! n)"
        "q' = (q ! n)\<lparr>qty := qty (q ! n) - r\<rparr> # drop (Suc n) q"
        "trs = full_fills bp t (take n q) @ [make_trade bp r t (q ! n)]"
    by (auto simp: queue_pass_def)
  then have "q' = after_fills trs q \<and> distinct (map maker_order_id trs) \<and>
      maker_order_id ` set trs \<subseteq> order_id ` set q"
  proof cases
    case exact
    have "after_fills trs (take n q) = []"
      using exact(2) filled_qty_full_fills(1) [OF d1] by (intro after_fills_gone) simp
    moreover have "after_fills trs (drop n q) = drop n q"
    proof (rule after_fills_untouched, intro ballI conjI)
      fix m assume m: "m \<in> set (drop n q)"
      then have "order_id m \<notin> order_id ` set (take n q)" using disj by fastforce
      then show "filled_qty trs (order_id m) = 0"
        using exact(2) filled_qty_full_fills(2) [OF d1] by simp
      from m pos show "0 < qty m" by (meson in_set_dropD)
    qed
    ultimately have "after_fills trs q = drop n q"
      by (subst q) (simp del: append_take_drop_id)
    moreover have "distinct (map maker_order_id trs)" using exact(2) d1 by (simp add: ff)
    moreover have "maker_order_id ` set trs \<subseteq> order_id ` set q"
    proof -
      have "set (map maker_order_id trs) \<subseteq> set (map order_id q)"
        using exact(2) by (simp add: ff) (meson image_mono set_take_subset)
      then show ?thesis by simp
    qed
    ultimately show ?thesis using exact(1) by simp
  next
    case part
    have dn: "drop n q = q ! n # drop (Suc n) q" using part(1) by (simp add: Cons_nth_drop_Suc)
    have nin: "order_id (q ! n) \<notin> order_id ` set (take n q)"
      using disj dn by (metis image_iff list.set_intros(1))
    have f0: "filled_qty trs (order_id m) = qty m" if "m \<in> set (take n q)" for m
    proof -
      have "order_id (q ! n) \<noteq> order_id m" using nin that by force
      then show ?thesis
        using part(5) filled_qty_full_fills(1) [OF d1 that] by simp
    qed
    have f1: "filled_qty trs (order_id (q ! n)) = r"
      using part(5) filled_qty_full_fills(2) [OF d1 nin] by simp
    have f2: "filled_qty trs (order_id m) = 0 \<and> 0 < qty m" if "m \<in> set (drop (Suc n) q)" for m
    proof -
      have md: "m \<in> set (drop n q)" using that dn by simp
      then have a: "order_id m \<notin> order_id ` set (take n q)" using disj by fastforce
      have "distinct (map order_id (drop n q))" using dist by (simp add: drop_map [symmetric])
      then have "distinct (map order_id (q ! n # drop (Suc n) q))" using dn by simp
      then have "order_id (q ! n) \<notin> order_id ` set (drop (Suc n) q)" by simp
      with that have b: "order_id m \<noteq> order_id (q ! n)" by (metis imageI)
      from md pos have "0 < qty m" by (meson in_set_dropD)
      then show ?thesis
        using part(5) filled_qty_full_fills(2) [OF d1 a] b by simp
    qed
    have "after_fills trs (take n q) = []"
      using f0 by (intro after_fills_gone) simp
    moreover have "after_fills trs (drop (Suc n) q) = drop (Suc n) q"
      using f2 by (intro after_fills_untouched) blast
    ultimately have "after_fills trs q = (q ! n)\<lparr>qty := qty (q ! n) - r\<rparr> # drop (Suc n) q"
      using f1 part(3)
      by (subst q) (simp del: append_take_drop_id add: dn after_fills_Cons)
    moreover have "distinct (map maker_order_id trs)" using part(5) d1 nin by (simp add: ff)
    moreover have "maker_order_id ` set trs \<subseteq> order_id ` set q"
    proof -
      have "order_id ` set (take n q) \<subseteq> order_id ` set q" by (meson image_mono set_take_subset)
      moreover have "order_id (q ! n) \<in> order_id ` set q" using part(1) by simp
      ultimately show ?thesis using part(5) by (auto simp: full_fills_def)
    qed
    ultimately show ?thesis using part(4) by simp
  qed
  then show "q' = after_fills trs q" "distinct (map maker_order_id trs)"
    "maker_order_id ` set trs \<subseteq> order_id ` set q" by simp_all
qed

lemma queue_at_positive:
  assumes "book_inv b" "m \<in> set (queue_at s p b)"
  shows "0 < qty m" and "book_for_side s b p = Some (queue_at s p b)"
proof -
  from assms(2) obtain q where q: "book_for_side s b p = Some q" "queue_at s p b = q"
    by (cases "book_for_side s b p") (auto simp: queue_at_def)
  then show "book_for_side s b p = Some (queue_at s p b)" by simp
  from assms(1) q have "queue_wf s p q" by (simp add: book_inv_def orders_wf_def)
  with assms(2) q show "0 < qty m" by (simp add: queue_wf_def)
qed

text \<open>
  The whole loop: on the maker side every queue is left as the fills of the returned
  trades leave it, and no resting order is hit by two trades of one call.
\<close>

lemma match_after_fills:
  assumes "match b taker = Inr (b', taker', trs)" "book_inv b"
  shows "(\<forall>p. queue_at (opposite (side taker)) p b'
            = after_fills trs (queue_at (opposite (side taker)) p b)) \<and>
         distinct (map maker_order_id trs)"
  using assms
proof (induction rule: match_induct_inv)
  case (stop b taker)
  have "after_fills [] (queue_at (opposite (side taker)) p b) = queue_at (opposite (side taker)) p b"
    for p
    using queue_at_positive(1) [OF stop(1)] by (intro after_fills_untouched) auto
  then show ?case by simp
next
  case (pass b taker b1 taker1 trs1 b' taker' trs2)
  let ?ms = "opposite (side taker)"
  from match_body_pass [OF pass(1,3,2)] obtain bp q n q' where
    bk: "book_for_side ?ms b bp = Some q" and qw: "queue_wf ?ms bp q"
    and qp: "queue_pass bp q (order_index b) taker n q' (order_index b1) taker1 trs1"
    and b1: "b1 = level_shrink ?ms bp q' (order_index b1) b"
    by blast
  note sd = match_pass_side [OF pass(1,3,2)]
  note af = queue_pass_after_fills [OF qw qp]
  from pass.IH sd have ih: "\<And>p. queue_at ?ms p b' = after_fills trs2 (queue_at ?ms p b1)"
    and d2: "distinct (map maker_order_id trs2)" by simp_all
  have bk1: "book_for_side ?ms b1 p =
      (if p = bp then (if q' = [] then None else Some q') else book_for_side ?ms b p)" for p
    by (subst b1) (simp add: level_shrink_book)
  have ok2: "\<forall>t \<in> set trs2. trade_ok b1 taker1 t" by (rule match_trades_ok [OF pass(5,4)])
  then have pos2: "\<forall>t \<in> set trs2. 0 \<le> trade_qty t" by (auto simp: trade_ok_def)
  have spent: "trs2 = []" if "q' \<noteq> []"
  proof -
    from qp that have "qty taker1 = 0" by (auto simp: queue_pass_def)
    with pass(5) show ?thesis by (simp add: match.simps [of b1 taker1])
  qed
  have other: "order_id m \<notin> maker_order_id ` set trs1"
    if "book_for_side ?ms b p = Some qq" "m \<in> set qq" "p \<noteq> bp" for p qq m
  proof
    assume "order_id m \<in> maker_order_id ` set trs1"
    with af(3) obtain x where x: "x \<in> set q" "order_id x = order_id m" by auto
    from resting_ids_level [OF pass(1) bk x(1) that(1,2) x(2)] that(3) show False by simp
  qed
  have step: "queue_at ?ms p b1 = after_fills trs1 (queue_at ?ms p b)" for p
  proof (cases "p = bp")
    case True
    then show ?thesis using bk bk1 af(1) by (simp add: queue_at_def)
  next
    case False
    have "after_fills trs1 (queue_at ?ms p b) = queue_at ?ms p b"
    proof (rule after_fills_untouched, intro ballI conjI)
      fix m assume m: "m \<in> set (queue_at ?ms p b)"
      from queue_at_positive [OF pass(1) m] other [OF _ m False]
      show "filled_qty trs1 (order_id m) = 0" "0 < qty m"
        by (simp_all add: filled_qty_absent)
    qed
    with False bk1 show ?thesis by (simp add: queue_at_def)
  qed
  have "queue_at ?ms p b' = after_fills (trs1 @ trs2) (queue_at ?ms p b)" for p
    using ih [of p] step [of p] after_fills_append [OF pos2, of trs1] by simp
  moreover have "distinct (map maker_order_id (trs1 @ trs2))"
  proof (cases "trs2 = []")
    case True
    with af(2) show ?thesis by simp
  next
    case False
    with spent have gone: "q' = []" by blast
    have "maker_order_id t2 \<notin> maker_order_id ` set trs1" if "t2 \<in> set trs2" for t2
    proof -
      from ok2 that obtain q2 m where
        m: "book_for_side ?ms b1 (trade_price t2) = Some q2" "m \<in> set q2"
          "order_id m = maker_order_id t2"
        unfolding trade_ok_def using sd(1) by auto
      from m(1) bk1 gone have ne: "trade_price t2 \<noteq> bp"
        and "book_for_side ?ms b (trade_price t2) = Some q2"
        by (auto split: if_splits)
      from other [OF this(2) m(2) ne] m(3) show ?thesis by simp
    qed
    then have "set (map maker_order_id trs1) \<inter> set (map maker_order_id trs2) = {}"
      by (auto simp: image_iff) metis
    with af(2) d2 show ?thesis by simp
  qed
  ultimately show ?case by simp
qed

lemma add_order_after_fills:
  assumes "book_inv b" "add_order b ord = Inr (b', ord', trs)"
  shows "\<forall>p. queue_at (opposite (side ord)) p b'
            = after_fills trs (queue_at (opposite (side ord)) p b)"
    and "distinct (map maker_order_id trs)"
    and "\<forall>p. queue_at (side ord) p b' = queue_at (side ord) p b @
            (if order_type ord' = LIMIT \<and> 0 < qty ord' \<and> price ord = Some p then [ord'] else [])"
proof -
  let ?ms = "opposite (side ord)"
  from add_order_Inr [OF assms(2)] obtain b1 where
    mp: "match_phase b ord = Inr (b1, ord', trs)"
    and rest: "if order_type ord' = LIMIT \<and> 0 < qty ord' then add_resting b1 ord' = Inr b'
               else b' = b1"
    by blast
  from match_phase_props(2) [OF mp assms(1)] obtain k where same: "ord' = ord\<lparr>qty := k\<rparr>"
    by blast
  have m: "(\<forall>p. queue_at ?ms p b1 = after_fills trs (queue_at ?ms p b)) \<and>
      distinct (map maker_order_id trs) \<and>
      book_for_side (side ord) b1 = book_for_side (side ord) b"
  proof (cases "order_type ord = MARKET \<or> is_marketable b ord")
    case True
    then have mt: "match b ord = Inr (b1, ord', trs)" using mp by (simp add: match_phase_def)
    from match_after_fills [OF mt assms(1)]
      match_levels [OF mt book_inv_side_wf [OF assms(1)]]
    show ?thesis by simp
  next
    case False
    then have "b1 = b" "trs = []" using mp by (simp_all add: match_phase_def)
    moreover have "after_fills [] (queue_at ?ms p b) = queue_at ?ms p b" for p
      using queue_at_positive(1) [OF assms(1)] by (intro after_fills_untouched) auto
    ultimately show ?thesis by simp
  qed
  then show "distinct (map maker_order_id trs)" by simp
  have view: "(\<forall>p. queue_at ?ms p b' = queue_at ?ms p b1) \<and>
      (\<forall>p. queue_at (side ord) p b' = queue_at (side ord) p b1 @
            (if order_type ord' = LIMIT \<and> 0 < qty ord' \<and> price ord = Some p then [ord'] else []))"
  proof (cases "order_type ord' = LIMIT \<and> 0 < qty ord'")
    case False
    with rest show ?thesis by auto
  next
    case True
    with rest have ar: "add_resting b1 ord' = Inr b'" by simp
    then obtain p0 where p0: "price ord' = Some p0"
      by (auto simp: add_resting_def split: option.splits)
    from add_resting_view [OF p0, of b1] ar
    have bk: "book_for_side s' b' p' =
        (if s' = side ord' \<and> p' = p0 then Some (queue_at (side ord') p0 b1 @ [ord'])
         else book_for_side s' b1 p')" for s' p'
      by auto
    have sd: "side ord' = side ord" "price ord = Some p0" using same p0 by auto
    have "?ms \<noteq> side ord" by (cases "side ord") simp_all
    then show ?thesis using True sd by (auto simp: queue_at_def bk)
  qed
  from m view show "\<forall>p. queue_at ?ms p b' = after_fills trs (queue_at ?ms p b)" by simp
  from m view show "\<forall>p. queue_at (side ord) p b' = queue_at (side ord) p b @
      (if order_type ord' = LIMIT \<and> 0 < qty ord' \<and> price ord = Some p then [ord'] else [])"
    by (simp add: queue_at_def)
qed

lemma queue_same_id:
  assumes "queue_wf s p q" "x \<in> set q" "y \<in> set q" "order_id x = order_id y"
  shows "x = y"
proof -
  from assms(1) have "inj_on order_id (set q)" by (simp add: queue_wf_def distinct_map)
  with assms(2-4) show ?thesis by (auto dest: inj_onD)
qed


section \<open>Queues are in arrival order\<close>

text \<open>
  A book together with the list of the ids submitted to it so far, in order of
  submission. Ids are never used twice, as with the counter of \<open>OrderFactory\<close>.
\<close>

inductive arrivals :: "LimitOrderBook \<Rightarrow> string list \<Rightarrow> bool" where
  arrivals_init: "arrivals empty_book []"
| arrivals_add_order:
    "arrivals b arr \<Longrightarrow> order_id ord \<notin> set arr \<Longrightarrow> add_order b ord = Inr (b', ord', trs)
       \<Longrightarrow> arrivals b' (arr @ [order_id ord])"
| arrivals_cancel:
    "arrivals b arr \<Longrightarrow> cancel b oid = (r, b') \<Longrightarrow> arrivals b' arr"

lemma after_fills_subseq: "subseq (map order_id (after_fills trs q)) (map order_id q)"
proof -
  have "map order_id (after_fills trs q)
      = map order_id (filter (\<lambda>m. filled_qty trs (order_id m) < qty m) q)"
    by (simp add: after_fills_def comp_def)
  then show ?thesis by (simp add: subseq_map)
qed

lemma arrivals_inv:
  assumes "arrivals b arr"
  shows "book_inv b \<and> distinct arr \<and> dom (order_index b) \<subseteq> set arr \<and>
         (\<forall>s p. subseq (map order_id (queue_at s p b)) arr)"
  using assms
proof (induction rule: arrivals.induct)
  case arrivals_init
  show ?case by (simp add: book_inv_empty) (simp add: empty_book_def queue_at_def book_for_side_def)
next
  case (arrivals_add_order b arr ord b' ord' trs)
  then have inv: "book_inv b" and dl: "distinct arr" and dm: "dom (order_index b) \<subseteq> set arr"
    and sq: "\<And>s p. subseq (map order_id (queue_at s p b)) arr" by simp_all
  from arrivals_add_order(2) dm have fresh: "order_id ord \<notin> dom (order_index b)" by blast
  note ao = arrivals_add_order(3)
  have "book_inv b'" by (rule add_order_inv [OF ao inv fresh])
  moreover have "distinct (arr @ [order_id ord])" using dl arrivals_add_order(2) by simp
  moreover have "dom (order_index b') \<subseteq> set (arr @ [order_id ord])"
    using add_order_index_dom [OF ao inv] dm by auto
  moreover have "subseq (map order_id (queue_at s p b')) (arr @ [order_id ord])" for s p
  proof (cases "s = side ord")
    case True
    from add_order_Inr [OF ao] obtain b1 where "match_phase b ord = Inr (b1, ord', trs)" by blast
    from match_phase_props(2) [OF this inv] have id: "order_id ord' = order_id ord" by auto
    have "subseq (map order_id (queue_at s p b) @
        map order_id (if order_type ord' = LIMIT \<and> 0 < qty ord' \<and> price ord = Some p
          then [ord'] else [])) (arr @ [order_id ord])"
      using sq [of s p] id by (intro list_emb_append_mono) auto
    then show ?thesis using add_order_after_fills(3) [OF inv ao] True by simp
  next
    case False
    then have s: "s = opposite (side ord)" by (cases s; cases "side ord") simp_all
    have "subseq (map order_id (queue_at s p b')) (map order_id (queue_at s p b))"
      using add_order_after_fills(1) [OF inv ao] s by (simp add: after_fills_subseq)
    from subseq_order.trans [OF this sq [of s p]]
    have "subseq (map order_id (queue_at s p b') @ []) (arr @ [order_id ord])"
      by (intro list_emb_append_mono) simp_all
    then show ?thesis by simp
  qed
  ultimately show ?case by blast
next
  case (arrivals_cancel b arr oid r b')
  then have inv: "book_inv b" and dl: "distinct arr" and dm: "dom (order_index b) \<subseteq> set arr"
    and sq: "\<And>s p. subseq (map order_id (queue_at s p b)) arr" by simp_all
  from cancel_inv [OF inv, of oid] arrivals_cancel(2) have "book_inv b'" by simp
  moreover have "dom (order_index b') \<subseteq> set arr \<and>
      (\<forall>s p. subseq (map order_id (queue_at s p b')) (map order_id (queue_at s p b)))"
  proof (rule cancel_inv_cases [OF inv, of oid], goal_cases unknown found)
    case unknown
    with arrivals_cancel(2) dm show ?case by simp
  next
    case (found s0 p0 w q)
    with arrivals_cancel(2) have
      b': "b' = level_shrink s0 p0 (del_first oid q) ((order_index b)(oid := None)) b" by simp
    from found(4) have dq: "distinct (map order_id q)" by (simp add: queue_wf_def)
    have "subseq (map order_id (del_first oid q)) (map order_id q)"
      by (simp add: del_first_filter [OF dq] subseq_map)
    then have "subseq (map order_id (queue_at s p b')) (map order_id (queue_at s p b))" for s p
      using found(2) by (auto simp: b' queue_at_def level_shrink_book)
    moreover have "dom (order_index b') \<subseteq> set arr" using dm by (auto simp: b')
    ultimately show ?case by simp
  qed
  ultimately show ?case using dl sq by (meson subseq_order.trans)
qed

lemma add_orders_arrivals:
  "arrivals b arr \<Longrightarrow> add_orders b ords = Inr b' \<Longrightarrow> distinct (arr @ map order_id ords)
     \<Longrightarrow> arrivals b' (arr @ map order_id ords)"
proof (induction ords arbitrary: b arr)
  case Nil
  then show ?case by simp
next
  case (Cons ord ords)
  from Cons.prems(2) obtain b1 ord1 trs where
    ao: "add_order b ord = Inr (b1, ord1, trs)" and rec: "add_orders b1 ords = Inr b'"
    by (auto split: sum.splits)
  from Cons.prems(3) have "order_id ord \<notin> set arr" by auto
  from arrivals_add_order [OF Cons.prems(1) this ao]
  have "arrivals b1 (arr @ [order_id ord])" .
  from Cons.IH [OF this rec] Cons.prems(3) show ?case by simp
qed

lemma example_book_arrivals:
  "arrivals example_book [''ORD-1'', ''ORD-2'', ''ORD-3'', ''ORD-4'', ''ORD-5'']"
  using add_orders_arrivals [OF arrivals_init example_book_built]
  by (simp add: example_defs)

section \<open>Execution price and quantity of a trade\<close>



section \<open>Time priority within a level\<close>

text \<open>
  Claim C4 (FIFO). In every book reached from the empty one, the queue of a price level
  is in arrival order: its ids occur in it in the order in which they were submitted.
  A call of \<open>add_order\<close> keeps it so. On the opposing side every resting order keeps its
  place, loses exactly what the returned trades fill of it, and leaves its queue only
  when nothing remains of it; on the side of the new order nothing changes, except that
  a resting remainder joins the tail of the queue of its price. For two orders of one
  level on the opposing side, \<open>A\<close> ahead of \<open>B\<close>: if the call produces any trade against
  \<open>B\<close>, then it produces a trade against \<open>A\<close> for the whole of the quantity \<open>A\<close> has
  left, at that level's price, this trade comes before every trade against \<open>B\<close>, and
  \<open>A\<close> has left the book afterwards.
\<close>

theorem fifo_within_level:
  assumes "arrivals b arr" "add_order b ord = Inr (b', ord', trs)"
  shows "distinct arr \<and>
         (\<forall>s p. subseq (map order_id (queue_at s p b)) arr) \<and>
         (\<forall>s p. subseq (map order_id (queue_at s p b')) (arr @ [order_id ord])) \<and>
         (\<forall>p q i j. book_for_side (opposite (side ord)) b p = Some q \<and> i < j \<and> j < length q \<and>
            (\<exists>l < length trs. maker_order_id (trs ! l) = order_id (q ! j)) \<longrightarrow>
            (\<exists>k < length trs. maker_order_id (trs ! k) = order_id (q ! i) \<and>
               trade_qty (trs ! k) = qty (q ! i) \<and> trade_price (trs ! k) = p \<and>
               (\<forall>l < length trs. maker_order_id (trs ! l) = order_id (q ! j) \<longrightarrow> k < l)) \<and>
            order_id (q ! i) \<notin> order_id ` set (queue_at (opposite (side ord)) p b')) \<and>
         (\<forall>p. queue_at (opposite (side ord)) p b'
            = after_fills trs (queue_at (opposite (side ord)) p b)) \<and>
         (\<forall>p. queue_at (side ord) p b' = queue_at (side ord) p b @
            (if order_type ord' = LIMIT \<and> 0 < qty ord' \<and> price ord = Some p
             then [ord'] else [])) \<and>
         (order_type ord' = LIMIT \<and> 0 < qty ord' \<longrightarrow>
            (\<exists>p. price ord = Some p \<and>
               book_for_side (side ord) b' p = Some (queue_at (side ord) p b @ [ord'])))"
proof -
  let ?ms = "opposite (side ord)"
  from arrivals_inv [OF assms(1)] have inv: "book_inv b" and dl: "distinct arr"
    and sq: "\<forall>s p. subseq (map order_id (queue_at s p b)) arr"
    and dm: "dom (order_index b) \<subseteq> set arr" by simp_all
  note af = add_order_after_fills [OF inv assms(2)]
  have sq': "\<forall>s p. subseq (map order_id (queue_at s p b')) (arr @ [order_id ord])"
  proof (cases "order_id ord \<in> set arr")
    case False
    from arrivals_inv [OF arrivals_add_order [OF assms(1) False assms(2)]] show ?thesis by simp
  next
    case True
    have "subseq (map order_id (queue_at s p b')) (arr @ [order_id ord])" for s p
    proof (cases "s = side ord")
      case True
      from add_order_Inr [OF assms(2)] obtain b1 where
        "match_phase b ord = Inr (b1, ord', trs)" by blast
      from match_phase_props(2) [OF this inv] have id: "order_id ord' = order_id ord" by auto
      have "subseq (map order_id (queue_at s p b) @
          map order_id (if order_type ord' = LIMIT \<and> 0 < qty ord' \<and> price ord = Some p
            then [ord'] else [])) (arr @ [order_id ord])"
        using sq id by (intro list_emb_append_mono) auto
      then show ?thesis using af(3) True by simp
    next
      case False
      then have s: "s = ?ms" by (cases s; cases "side ord") simp_all
      have "subseq (map order_id (queue_at s p b')) (map order_id (queue_at s p b))"
        using af(1) s by (simp add: after_fills_subseq)
      with sq have "subseq (map order_id (queue_at s p b')) arr"
        by (meson subseq_order.trans)
      then have "subseq (map order_id (queue_at s p b') @ []) (arr @ [order_id ord])"
        by (intro list_emb_append_mono) simp_all
      then show ?thesis by simp
    qed
    then show ?thesis by simp
  qed
  from add_order_Inr [OF assms(2)] obtain b1 where
    mp: "match_phase b ord = Inr (b1, ord', trs)" by blast
  have fifo: "fifo_ok b ?ms trs"
  proof (cases "order_type ord = MARKET \<or> is_marketable b ord")
    case True
    then have "match b ord = Inr (b1, ord', trs)" using mp by (simp add: match_phase_def)
    from match_fifo [OF this inv] show ?thesis .
  next
    case False
    then have "trs = []" using mp by (simp add: match_phase_def)
    then show ?thesis by (simp add: fifo_ok_def)
  qed
  have gone: "order_id (q ! i) \<notin> order_id ` set (queue_at ?ms p b')"
    if q: "book_for_side ?ms b p = Some q" and i: "i < length q"
      and k: "k < length trs" "maker_order_id (trs ! k) = order_id (q ! i)"
        "trade_qty (trs ! k) = qty (q ! i)" for p q i k
  proof
    assume "order_id (q ! i) \<in> order_id ` set (queue_at ?ms p b')"
    moreover have "queue_at ?ms p b' = after_fills trs q"
      using af(1) q by (simp add: queue_at_def)
    ultimately obtain x where x: "x \<in> set (after_fills trs q)" "order_id x = order_id (q ! i)"
      by auto
    then obtain m where m: "m \<in> set q" "order_id m = order_id (q ! i)"
      "filled_qty trs (order_id m) < qty m"
      by (auto simp: after_fills_def)
    from inv q have qw: "queue_wf ?ms p q" by (simp add: book_inv_def orders_wf_def)
    from queue_same_id [OF qw m(1) _ m(2)] i have "m = q ! i" by simp
    moreover from filled_qty_distinct [OF af(2), of "trs ! k"] k
    have "filled_qty trs (order_id (q ! i)) = qty (q ! i)" by simp
    ultimately show False using m(3) by simp
  qed
  have pair: "(\<exists>k < length trs. maker_order_id (trs ! k) = order_id (q ! i) \<and>
               trade_qty (trs ! k) = qty (q ! i) \<and> trade_price (trs ! k) = p \<and>
               (\<forall>l < length trs. maker_order_id (trs ! l) = order_id (q ! j) \<longrightarrow> k < l)) \<and>
            order_id (q ! i) \<notin> order_id ` set (queue_at ?ms p b')"
    if "book_for_side ?ms b p = Some q" "i < j" "j < length q"
      "\<exists>l < length trs. maker_order_id (trs ! l) = order_id (q ! j)" for p q i j
  proof -
    from fifo that obtain k where k: "k < length trs"
      "maker_order_id (trs ! k) = order_id (q ! i)" "trade_qty (trs ! k) = qty (q ! i)"
      "trade_price (trs ! k) = p"
      "\<forall>l < length trs. maker_order_id (trs ! l) = order_id (q ! j) \<longrightarrow> k < l"
      unfolding fifo_ok_def by blast
    from that(2,3) have "i < length q" by simp
    from gone [OF that(1) this k(1-3)] k show ?thesis by blast
  qed
  have tail: "order_type ord' = LIMIT \<and> 0 < qty ord' \<longrightarrow>
            (\<exists>p. price ord = Some p \<and>
               book_for_side (side ord) b' p = Some (queue_at (side ord) p b @ [ord']))"
    using add_order_rests_at_tail [OF inv assms(2)] by blast
  from dl sq sq' pair af(1,3) tail show ?thesis by (intro conjI) blast+
qed

theorem fifo_within_level_witness:
  "arrivals example_book [''ORD-1'', ''ORD-2'', ''ORD-3'', ''ORD-4'', ''ORD-5''] \<and>
   (\<exists>b' ord'. add_order example_book ord_F = Inr (b', ord', [trade_F1, trade_F2]) \<and>
      queue_at (opposite (side ord_F)) 101 b' = [ord_D\<lparr>qty := 5\<rparr>]) \<and>
   book_for_side (opposite (side ord_F)) example_book 101 = Some [ord_C, ord_D] \<and>
   maker_order_id trade_F2 = order_id ord_D \<and>
   (\<exists>k < 2. maker_order_id ([trade_F1, trade_F2] ! k) = order_id ord_C \<and>
      trade_qty ([trade_F1, trade_F2] ! k) = qty ord_C \<and> k < 1)"
proof -
  from example_crossing_limit obtain b' ord' where
    ao: "add_order example_book ord_F = Inr (b', ord', [trade_F1, trade_F2])" by blast
  have q: "book_for_side (opposite (side ord_F)) example_book 101 = Some [ord_C, ord_D]"
    by (simp add: ord_F_def example_book_def book_for_side_def)
  have hit: "\<exists>l < length [trade_F1, trade_F2].
      maker_order_id ([trade_F1, trade_F2] ! l) = order_id ([ord_C, ord_D] ! 1)"
    by (intro exI [of _ 1]) (simp add: trade_F2_def ord_D_def)
  note th = fifo_within_level [OF example_book_arrivals ao]
  from th q hit
  obtain k where k: "k < length [trade_F1, trade_F2]"
    "maker_order_id ([trade_F1, trade_F2] ! k) = order_id ([ord_C, ord_D] ! 0)"
    "trade_qty ([trade_F1, trade_F2] ! k) = qty ([ord_C, ord_D] ! 0)"
    "\<forall>l < length [trade_F1, trade_F2].
       maker_order_id ([trade_F1, trade_F2] ! l) = order_id ([ord_C, ord_D] ! 1) \<longrightarrow> k < l"
    by (metis One_nat_def length_Cons lessI list.size(3) zero_less_one)
  have "maker_order_id ([trade_F1, trade_F2] ! 1) = order_id ([ord_C, ord_D] ! 1)"
    by (simp add: trade_F2_def ord_D_def)
  with k(4) have "k < 1" by (metis One_nat_def length_Cons lessI list.size(3))
  with k have ex: "\<exists>k < 2. maker_order_id ([trade_F1, trade_F2] ! k) = order_id ord_C \<and>
      trade_qty ([trade_F1, trade_F2] ! k) = qty ord_C \<and> k < 1"
    by (intro exI [of _ k]) simp
  from th have "queue_at (opposite (side ord_F)) 101 b'
      = after_fills [trade_F1, trade_F2] (queue_at (opposite (side ord_F)) 101 example_book)"
    by blast
  also have "\<dots> = [ord_D\<lparr>qty := 5\<rparr>]"
    using q by (simp add: queue_at_def after_fills_Cons trade_F1_def trade_F2_def
        ord_C_def ord_D_def)
  finally have "\<exists>b' ord'. add_order example_book ord_F = Inr (b', ord', [trade_F1, trade_F2]) \<and>
      queue_at (opposite (side ord_F)) 101 b' = [ord_D\<lparr>qty := 5\<rparr>]"
    using ao by blast
  then show ?thesis
    using example_book_arrivals ex q by (simp add: trade_F2_def ord_D_def)
qed

section \<open>The market-making agent (strategies/market_maker.py)\<close>

record MarketMakerConfig =
  half_spread_ticks :: int
  quote_qty :: int
  inventory_skew :: rat

text \<open>One entry of the fill log: the dictionary appended by \<open>_apply_fill\<close>.\<close>

record Fill =
  fill_timestamp :: "rat option"
  fill_side :: Side
  mm_side :: int
  fill_price :: rat
  fill_qty :: int

record MarketMaker =
  config :: MarketMakerConfig
  tick_size :: rat
  inventory :: int
  cash :: rat
  initial_cash :: rat
  avg_entry_price :: rat
  realized_pnl :: rat
  active_order_ids :: "string set"
  fills :: "Fill list"

text \<open>The dataclass constructor with its defaults, as the simulator calls it.\<close>

definition MarketMaker_init :: "MarketMakerConfig \<Rightarrow> rat \<Rightarrow> MarketMaker" where
  "MarketMaker_init cfg tick =
     \<lparr>config = cfg, tick_size = tick, inventory = 0, cash = 0, initial_cash = 0,
      avg_entry_price = 0, realized_pnl = 0, active_order_ids = {}, fills = []\<rparr>"

definition unrealized_pnl :: "MarketMaker \<Rightarrow> rat \<Rightarrow> rat" where
  "unrealized_pnl mm mid =
     (if inventory mm = 0 then 0
      else if inventory mm > 0 then (mid - avg_entry_price mm) * of_int (inventory mm)
      else (avg_entry_price mm - mid) * of_int \<bar>inventory mm\<bar>)"

definition total_pnl :: "MarketMaker \<Rightarrow> rat \<Rightarrow> rat" where
  "total_pnl mm mid = realized_pnl mm + unrealized_pnl mm mid"

definition mark_to_market :: "MarketMaker \<Rightarrow> rat \<Rightarrow> rat" where
  "mark_to_market mm mid = cash mm + of_int (inventory mm) * mid - initial_cash mm"

text \<open>
  \<open>_update_position\<close>. The division by \<open>new_abs\<close> raises when it is zero, which takes
  a negative fill quantity.
\<close>

definition update_position :: "int \<Rightarrow> int \<Rightarrow> rat \<Rightarrow> MarketMaker \<Rightarrow> error + MarketMaker" where
  "update_position trade_sign q p mm =
     (if inventory mm = 0
      then Inr (mm\<lparr>inventory := trade_sign * q, avg_entry_price := p\<rparr>)
      else if inventory mm * trade_sign > 0
      then (let current_abs = \<bar>inventory mm\<bar>; new_abs = current_abs + q
            in if new_abs = 0 then Inl ZeroDivisionError
               else Inr (mm\<lparr>avg_entry_price :=
                              (avg_entry_price mm * of_int current_abs + p * of_int q)
                                / of_int new_abs,
                            inventory := inventory mm + trade_sign * q\<rparr>))
      else (let close_qty = min \<bar>inventory mm\<bar> q;
                mm1 = (if inventory mm > 0
                       then mm\<lparr>realized_pnl := realized_pnl mm
                                 + (p - avg_entry_price mm) * of_int close_qty\<rparr>
                       else mm\<lparr>realized_pnl := realized_pnl mm
                                 + (avg_entry_price mm - p) * of_int close_qty\<rparr>);
                mm2 = mm1\<lparr>inventory := inventory mm1 + trade_sign * close_qty\<rparr>;
                remaining = q - close_qty;
                mm3 = (if inventory mm2 = 0 then mm2\<lparr>avg_entry_price := 0\<rparr> else mm2);
                mm4 = (if remaining > 0
                       then mm3\<lparr>inventory := trade_sign * remaining, avg_entry_price := p\<rparr>
                       else mm3)
            in Inr mm4))"

definition apply_fill :: "Side \<Rightarrow> rat \<Rightarrow> int \<Rightarrow> MarketMaker \<Rightarrow> error + MarketMaker" where
  "apply_fill sd p q mm =
     (let trade_sign = (if sd = BID then 1 else - 1);
          cash_delta = (if sd = BID then - p * of_int q else p * of_int q)
      in case update_position trade_sign q p (mm\<lparr>cash := cash mm + cash_delta\<rparr>) of
           Inl e \<Rightarrow> Inl e
         | Inr mm' \<Rightarrow>
             Inr (mm'\<lparr>fills := fills mm' @
                    [\<lparr>fill_timestamp = None, fill_side = sd, mm_side = trade_sign,
                      fill_price = p, fill_qty = q\<rparr>]\<rparr>))"

definition on_trade :: "Trade \<Rightarrow> MarketMaker \<Rightarrow> error + MarketMaker" where
  "on_trade t mm =
     (if taker_owner t = ''MM'' then apply_fill (taker_side t) (trade_price t) (trade_qty t) mm
      else if maker_owner t = ''MM''
      then apply_fill (opposite (taker_side t)) (trade_price t) (trade_qty t) mm
      else Inr mm)"

text \<open>A sequence of calls of \<open>on_trade\<close>, stopping at the first exception.\<close>

fun on_trades :: "Trade list \<Rightarrow> MarketMaker \<Rightarrow> error + MarketMaker" where
  "on_trades [] mm = Inr mm"
| "on_trades (t # ts) mm =
     (case on_trade t mm of Inl e \<Rightarrow> Inl e | Inr mm' \<Rightarrow> on_trades ts mm')"

section \<open>Reconciliation of the two P and L figures\<close>

definition pnl_inv :: "MarketMaker \<Rightarrow> bool" where
  "pnl_inv mm \<longleftrightarrow>
     realized_pnl mm - avg_entry_price mm * of_int (inventory mm) = cash mm - initial_cash mm"

lemma unrealized_pnl_eq:
  "unrealized_pnl mm mid = (mid - avg_entry_price mm) * of_int (inventory mm)"
  by (simp add: unrealized_pnl_def algebra_simps)

lemma pnl_inv_reconciles:
  "pnl_inv mm \<Longrightarrow> total_pnl mm mid = mark_to_market mm mid"
  by (simp add: pnl_inv_def total_pnl_def mark_to_market_def unrealized_pnl_eq algebra_simps)

lemma update_position_inv:
  assumes "0 < q" "sg = 1 \<or> sg = - 1"
    "realized_pnl mm - avg_entry_price mm * of_int (inventory mm)
       = cash mm + of_int sg * p * of_int q - initial_cash mm"
  shows "\<exists>mm'. update_position sg q p mm = Inr mm' \<and> pnl_inv mm' \<and>
           fills mm' = fills mm \<and> active_order_ids mm' = active_order_ids mm \<and>
           config mm' = config mm \<and> tick_size mm' = tick_size mm"
proof -
  consider (flat) "inventory mm = 0"
    | (extend) "inventory mm \<noteq> 0" "inventory mm * sg > 0"
    | (reduce) "inventory mm \<noteq> 0" "\<not> inventory mm * sg > 0"
    by blast
  then show ?thesis
  proof cases
    case flat
    with assms show ?thesis
      by (auto simp: update_position_def pnl_inv_def algebra_simps)
  next
    case extend
    then have na: "\<bar>inventory mm\<bar> + q \<noteq> 0" using assms(1) by simp
    define c :: rat where "c = of_int (\<bar>inventory mm\<bar> + q)"
    define A where "A = (avg_entry_price mm * of_int \<bar>inventory mm\<bar> + p * of_int q) / c"
    define I where "I = inventory mm + sg * q"
    have cnz: "c \<noteq> 0" unfolding c_def using na by (simp only: of_int_eq_0_iff not_False_eq_True)
    have sgn: "inventory mm = sg * \<bar>inventory mm\<bar>"
      using extend assms(2) by (auto simp: abs_if mult_less_0_iff zero_less_mult_iff)
    have "I = sg * (\<bar>inventory mm\<bar> + q)"
      unfolding I_def using sgn by (simp add: algebra_simps)
    then have I': "(of_int I :: rat) = of_int sg * c"
      unfolding c_def by (metis of_int_mult)
    have "A * of_int I = of_int sg * (avg_entry_price mm * of_int \<bar>inventory mm\<bar> + p * of_int q)"
      unfolding A_def I' using cnz by simp
    also have "\<dots> = avg_entry_price mm * (of_int sg * of_int \<bar>inventory mm\<bar>)
        + of_int sg * p * of_int q"
      by (simp add: algebra_simps)
    also have "of_int sg * of_int \<bar>inventory mm\<bar> = (of_int (inventory mm) :: rat)"
      by (metis of_int_mult sgn)
    finally have prod: "A * of_int I =
        avg_entry_price mm * of_int (inventory mm) + of_int sg * p * of_int q" .
    have up: "update_position sg q p mm = Inr (mm\<lparr>avg_entry_price := A, inventory := I\<rparr>)"
      using extend na by (simp add: update_position_def Let_def A_def I_def c_def)
    have "pnl_inv (mm\<lparr>avg_entry_price := A, inventory := I\<rparr>)"
      unfolding pnl_inv_def using prod assms(3) by simp
    with up show ?thesis by simp
  next
    case reduce
    then have opp: "(inventory mm > 0 \<and> sg = - 1) \<or> (inventory mm < 0 \<and> sg = 1)"
      using assms(2) by (auto simp: zero_less_mult_iff not_less mult_le_0_iff)
    then show ?thesis
    proof
      assume a: "inventory mm > 0 \<and> sg = - 1"
      show ?thesis
      proof (cases "q \<le> inventory mm")
        case True
        with a reduce assms(1,3) show ?thesis
          by (auto simp: update_position_def Let_def pnl_inv_def min_def algebra_simps)
      next
        case False
        with a reduce assms(1,3) show ?thesis
          by (auto simp: update_position_def Let_def pnl_inv_def min_def algebra_simps)
      qed
    next
      assume a: "inventory mm < 0 \<and> sg = 1"
      show ?thesis
      proof (cases "q \<le> - inventory mm")
        case True
        with a reduce assms(1,3) show ?thesis
          by (auto simp: update_position_def Let_def pnl_inv_def min_def algebra_simps)
      next
        case False
        with a reduce assms(1,3) show ?thesis
          by (auto simp: update_position_def Let_def pnl_inv_def min_def algebra_simps)
      qed
    qed
  qed
qed


lemma apply_fill_inv:
  assumes "0 < q" "pnl_inv mm"
  shows "\<exists>mm'. apply_fill sd p q mm = Inr mm' \<and> pnl_inv mm' \<and>
           active_order_ids mm' = active_order_ids mm \<and> config mm' = config mm \<and>
           tick_size mm' = tick_size mm \<and> length (fills mm') = Suc (length (fills mm))"
proof -
  define sg :: int where "sg = (if sd = BID then 1 else - 1)"
  define mm0 where "mm0 = mm\<lparr>cash := cash mm + (if sd = BID then - p * of_int q else p * of_int q)\<rparr>"
  have sg: "sg = 1 \<or> sg = - 1" by (simp add: sg_def)
  have "realized_pnl mm0 - avg_entry_price mm0 * of_int (inventory mm0)
       = cash mm0 + of_int sg * p * of_int q - initial_cash mm0"
    using assms(2) by (simp add: mm0_def sg_def pnl_inv_def)
  from update_position_inv [OF assms(1) sg this] obtain mm1 where
    u: "update_position sg q p mm0 = Inr mm1" "pnl_inv mm1" "fills mm1 = fills mm0"
      "active_order_ids mm1 = active_order_ids mm0" "config mm1 = config mm0"
      "tick_size mm1 = tick_size mm0"
    by blast
  have "apply_fill sd p q mm = Inr (mm1\<lparr>fills := fills mm1 @
      [\<lparr>fill_timestamp = None, fill_side = sd, mm_side = sg, fill_price = p, fill_qty = q\<rparr>]\<rparr>)"
    using u(1) by (simp add: apply_fill_def Let_def sg_def mm0_def)
  moreover have "pnl_inv (mm1\<lparr>fills := fs\<rparr>)" for fs
    using u(2) by (simp add: pnl_inv_def)
  ultimately show ?thesis using u(3-6) by (simp add: mm0_def)
qed

lemma on_trade_inv:
  assumes "0 < trade_qty t" "pnl_inv mm"
  shows "\<exists>mm'. on_trade t mm = Inr mm' \<and> pnl_inv mm' \<and>
           active_order_ids mm' = active_order_ids mm \<and> config mm' = config mm \<and>
           tick_size mm' = tick_size mm"
  using apply_fill_inv [OF assms, of "taker_side t" "trade_price t"]
    apply_fill_inv [OF assms, of "opposite (taker_side t)" "trade_price t"] assms(2)
  by (auto simp: on_trade_def)

lemma on_trades_inv:
  assumes "\<forall>t \<in> set ts. 0 < trade_qty t" "pnl_inv mm"
  shows "\<exists>mm'. on_trades ts mm = Inr mm' \<and> pnl_inv mm' \<and>
           active_order_ids mm' = active_order_ids mm \<and> config mm' = config mm \<and>
           tick_size mm' = tick_size mm"
  using assms
proof (induction ts arbitrary: mm)
  case Nil
  then show ?case by simp
next
  case (Cons t ts)
  from on_trade_inv [of t mm] Cons.prems obtain mm1 where
    1: "on_trade t mm = Inr mm1" "pnl_inv mm1" "active_order_ids mm1 = active_order_ids mm"
      "config mm1 = config mm" "tick_size mm1 = tick_size mm"
    by auto
  from Cons.IH [OF _ 1(2)] Cons.prems(1) obtain mm' where
    "on_trades ts mm1 = Inr mm'" "pnl_inv mm'" "active_order_ids mm' = active_order_ids mm1"
      "config mm' = config mm1" "tick_size mm' = tick_size mm1"
    by auto
  with 1 show ?case by simp
qed

text \<open>
  Claim C2 (P and L reconciliation). For an agent that starts flat, with zero cash, zero
  initial cash and nothing realized, any sequence of \<open>on_trade\<close> calls with positive trade
  quantities runs without exception, and afterwards, for every mid price,
  \<open>realized_pnl + unrealized_pnl(mid)\<close> equals \<open>cash + inventory \<times> mid - initial_cash\<close>,
  exactly.
\<close>

theorem pnl_reconciles:
  assumes "inventory mm = 0" "cash mm = 0" "initial_cash mm = 0" "realized_pnl mm = 0"
    "\<forall>t \<in> set ts. 0 < trade_qty t"
  shows "\<exists>mm'. on_trades ts mm = Inr mm' \<and>
           (\<forall>mid. realized_pnl mm' + unrealized_pnl mm' mid = mark_to_market mm' mid \<and>
                  total_pnl mm' mid = mark_to_market mm' mid \<and>
                  mark_to_market mm' mid
                    = cash mm' + of_int (inventory mm') * mid - initial_cash mm')"
proof -
  have "pnl_inv mm" using assms(1-4) by (simp add: pnl_inv_def)
  from on_trades_inv [OF assms(5) this] obtain mm' where
    r: "on_trades ts mm = Inr mm'" "pnl_inv mm'" by blast
  from pnl_inv_reconciles [OF r(2)] r(1) show ?thesis
    by (auto simp: total_pnl_def mark_to_market_def)
qed

definition default_mm_config :: MarketMakerConfig where
  "default_mm_config = \<lparr>half_spread_ticks = 1, quote_qty = 3, inventory_skew = 1 / 500\<rparr>"

definition trade_H :: Trade where
  "trade_H = \<lparr>trade_timestamp = 3, trade_price = 100, trade_qty = 3,
     taker_order_id = ''ORD-8'', maker_order_id = ''ORD-1'', taker_owner = ''MM'',
     maker_owner = ''FLOW'', taker_side = BID\<rparr>"

lemmas mm_eval = on_trade_def apply_fill_def update_position_def Let_def MarketMaker_init_def
  total_pnl_def unrealized_pnl_def mark_to_market_def

theorem pnl_reconciles_witness:
  "\<exists>mm'. on_trades [trade_F1, trade_F2, trade_H] (MarketMaker_init default_mm_config (1 / 100))
            = Inr mm' \<and>
         inventory mm' = 2 \<and> cash mm' = - 199 \<and>
         total_pnl mm' 102 = 5 \<and> mark_to_market mm' 102 = 5"
proof -
  let ?mm = "MarketMaker_init default_mm_config (1 / 100)"
  have start: "inventory ?mm = 0" "cash ?mm = 0" "initial_cash ?mm = 0" "realized_pnl ?mm = 0"
    by (simp_all add: MarketMaker_init_def)
  have pos: "\<forall>t \<in> set [trade_F1, trade_F2, trade_H]. 0 < trade_qty t"
    by (simp add: trade_F1_def trade_F2_def trade_H_def)
  from pnl_reconciles [OF start pos] obtain mm' where
    r: "on_trades [trade_F1, trade_F2, trade_H] ?mm = Inr mm'"
      "total_pnl mm' 102 = mark_to_market mm' 102"
    by blast
  have v: "inventory mm' = 2" "cash mm' = - 199" "mark_to_market mm' 102 = 5"
    using r(1) by (auto simp: mm_eval trade_F1_def trade_F2_def trade_H_def)
  with r show ?thesis by simp
qed

section \<open>Quoting (MarketMaker.make_quotes)\<close>

text \<open>
  Python's \<open>round(x)\<close> rounds to the nearest integer, ties to the even one, and
  \<open>round(x, n)\<close> does the same at the \<open>n\<close>-th decimal; over exact rationals:
\<close>

definition py_round :: "rat \<Rightarrow> int" where
  "py_round x =
     (let f = \<lfloor>x\<rfloor>; d = x - of_int f
      in if d < 1 / 2 then f else if d > 1 / 2 then f + 1 else if even f then f else f + 1)"



text \<open>\<open>OrderFactory\<close> (lob/orders.py): a prefix and a counter; ids are \<open>prefix-n\<close>.\<close>

record OrderFactory =
  prefix :: string
  counter :: nat

fun str_nat :: "nat \<Rightarrow> string" where
  "str_nat n =
     (if n < 10 then [''0123456789'' ! n]
      else str_nat (n div 10) @ [''0123456789'' ! (n mod 10)])"

declare str_nat.simps [simp del]

definition next_id :: "OrderFactory \<Rightarrow> string \<times> OrderFactory" where
  "next_id f = (prefix f @ ''-'' @ str_nat (counter f), f\<lparr>counter := Suc (counter f)\<rparr>)"


definition factory_market ::
  "OrderFactory \<Rightarrow> rat \<Rightarrow> Side \<Rightarrow> int \<Rightarrow> string \<Rightarrow> error + (Order \<times> OrderFactory)" where
  "factory_market f ts sd q w =
     (let (oid, f') = next_id f
      in case Order_post_init \<lparr>order_id = oid, timestamp = ts, side = sd, order_type = MARKET,
                                qty = q, price = None, owner = w\<rparr> of
           Inl e \<Rightarrow> Inl e
         | Inr ord \<Rightarrow> Inr (ord, f'))"




text \<open>Evaluation of \<open>py_round\<close> on a quotient of integers, in integer arithmetic.\<close>

definition round_div :: "int \<Rightarrow> int \<Rightarrow> int" where
  "round_div n m =
     (if 2 * (n mod m) < m then n div m
      else if 2 * (n mod m) > m then n div m + 1
      else if even (n div m) then n div m else n div m + 1)"

lemma py_round_of_int_divide:
  assumes "0 < m"
  shows "py_round (of_int n / of_int m) = round_div n m"
proof -
  have m: "(0::rat) < of_int m" using assms by simp
  have fl: "\<lfloor>(of_int n :: rat) / of_int m\<rfloor> = n div m" by (rule floor_divide_of_int_eq)
  have "(of_int n :: rat) = of_int (n div m) * of_int m + of_int (n mod m)"
    by (metis div_mult_mod_eq of_int_add of_int_mult)
  then have d: "(of_int n :: rat) / of_int m - of_int (n div m) = of_int (n mod m) / of_int m"
    using m by (simp add: field_simps)
  have lt: "(of_int (n mod m) :: rat) / of_int m < 1 / 2 \<longleftrightarrow> 2 * (n mod m) < m"
  proof -
    have "(of_int (n mod m) :: rat) / of_int m < 1 / 2 \<longleftrightarrow>
        (of_int (2 * (n mod m)) :: rat) < of_int m"
      using m by (simp add: field_simps)
    then show ?thesis by (simp only: of_int_less_iff)
  qed
  have gt: "(of_int (n mod m) :: rat) / of_int m > 1 / 2 \<longleftrightarrow> 2 * (n mod m) > m"
  proof -
    have "(of_int (n mod m) :: rat) / of_int m > 1 / 2 \<longleftrightarrow>
        (of_int (2 * (n mod m)) :: rat) > of_int m"
      using m by (simp add: field_simps)
    then show ?thesis by (simp only: of_int_less_iff)
  qed
  show ?thesis
    unfolding py_round_def Let_def fl d lt gt round_div_def by simp
qed

lemma py_round_numeral_simps [simp]:
  "py_round (numeral a / numeral b) = round_div (numeral a) (numeral b)"
  "py_round (- (numeral a / numeral b)) = round_div (- numeral a) (numeral b)"
  "py_round (numeral a) = numeral a"
  "py_round (- numeral a) = - numeral a"
  "py_round 0 = 0" "py_round 1 = 1"
proof -
  show "py_round (numeral a / numeral b) = round_div (numeral a) (numeral b)"
    using py_round_of_int_divide [of "numeral b" "numeral a"] by simp
  show "py_round (- (numeral a / numeral b)) = round_div (- numeral a) (numeral b)"
    using py_round_of_int_divide [of "numeral b" "- numeral a"] by simp
  show "py_round (numeral a) = numeral a" "py_round (- numeral a) = - numeral a"
    "py_round 0 = 0" "py_round 1 = 1"
    by (simp_all add: py_round_def)
qed















end
